theory Spec2Isabelle
  imports Main "HOL-Library.Word"
begin

unbundle bit_operations_syntax

section \<open>Marked atomic pointer (include/crange.hh, markptr)\<close>

text \<open>
  A \<^verbatim>\<open>markptr<T>\<close> holds one atomic machine word \<^verbatim>\<open>std::atomic<uptr> _p\<close>.
  The word is modelled by its value; an atomic operation is one step of the model.
  The views \<^verbatim>\<open>markptr_ptr\<close> and \<^verbatim>\<open>markptr_mark\<close> are the same word, read through
  the masks \<^verbatim>\<open>~1\<close> and \<^verbatim>\<open>1\<close>.
\<close>

type_synonym uptr = "64 word"
type_synonym u64 = "64 word"

text \<open>\<^verbatim>\<open>markptr_ptr::load\<close>: \<^verbatim>\<open>(T*) (_p.load() & ~1)\<close>.\<close>

definition markptr_ptr_load :: "uptr \<Rightarrow> uptr" where
  "markptr_ptr_load w = w AND NOT 1"

text \<open>\<^verbatim>\<open>markptr_mark::load\<close>: \<^verbatim>\<open>_p.load() & 1\<close>, converted to \<^verbatim>\<open>bool\<close>.\<close>

definition markptr_mark_load :: "uptr \<Rightarrow> bool" where
  "markptr_mark_load w = (w AND 1 \<noteq> 0)"

text \<open>
  \<^verbatim>\<open>std::atomic<uptr>::compare_exchange_weak(expected, desired)\<close>. The weak form may
  fail although the stored word equals \<^verbatim>\<open>expected\<close>; the first argument says whether
  this attempt fails spuriously. The result is the success flag, the stored word
  afterwards, and the value left in the caller's \<^verbatim>\<open>expected\<close> variable.
\<close>

definition compare_exchange_weak :: "bool \<Rightarrow> uptr \<Rightarrow> uptr \<Rightarrow> uptr \<Rightarrow> bool \<times> uptr \<times> uptr" where
  "compare_exchange_weak spurious stored expected desired =
     (if stored = expected \<and> \<not> spurious then (True, desired, expected)
      else (False, stored, stored))"

text \<open>
  \<^verbatim>\<open>markptr::cmpxch\<close>: \<^verbatim>\<open>uptr ee = expected._p.load();
  return _p.compare_exchange_weak(ee, desired._p.load());\<close>
  The result is the returned flag and the stored word afterwards.
\<close>

definition cmpxch :: "bool \<Rightarrow> uptr \<Rightarrow> uptr \<Rightarrow> uptr \<Rightarrow> bool \<times> uptr" where
  "cmpxch spurious stored expected desired =
     (let ee = expected;
          (ok, stored', ee') = compare_exchange_weak spurious stored ee desired
      in (ok, stored'))"

text \<open>
  \<^verbatim>\<open>markptr_ptr::operator=(T *p)\<close>:
  \<^verbatim>\<open>do { p0 = _p.load(); p1 = (p0 & 1) | (uptr) p; }
  while (!_p.compare_exchange_weak(p0, p1));\<close>
  The function \<open>sp\<close> gives, for the \<open>i\<close>-th attempt, whether the weak
  compare-and-swap fails spuriously. The loop has no bound of its own: not returning
  is the value \<open>None\<close>.
\<close>

partial_function (option) markptr_ptr_assign :: "(nat \<Rightarrow> bool) \<Rightarrow> nat \<Rightarrow> uptr \<Rightarrow> uptr \<Rightarrow> uptr option" where
  "markptr_ptr_assign sp i stored p =
     (let p0 = stored;
          p1 = (p0 AND 1) OR p
      in case compare_exchange_weak (sp i) stored p0 p1 of
           (ok, stored', p0') \<Rightarrow>
             if ok then Some stored' else markptr_ptr_assign sp (Suc i) stored' p)"

text \<open>
  \<^verbatim>\<open>markptr_mark::operator=(bool m)\<close>:
  \<^verbatim>\<open>do { p0 = _p.load(); p1 = (p0 & ~1) | !!m; }
  while (!_p.compare_exchange_weak(p0, p1));\<close>
  The parameter has type \<^verbatim>\<open>bool\<close>, so an integer argument has been converted at the
  call (non-zero to \<^verbatim>\<open>true\<close>); \<^verbatim>\<open>!!m\<close> promotes it to the word 0 or 1.
\<close>

partial_function (option) markptr_mark_assign :: "(nat \<Rightarrow> bool) \<Rightarrow> nat \<Rightarrow> uptr \<Rightarrow> bool \<Rightarrow> uptr option" where
  "markptr_mark_assign sp i stored m =
     (let p0 = stored;
          p1 = (p0 AND NOT 1) OR of_bool (\<not> \<not> m)
      in case compare_exchange_weak (sp i) stored p0 p1 of
           (ok, stored', p0') \<Rightarrow>
             if ok then Some stored' else markptr_mark_assign sp (Suc i) stored' m)"

text \<open>A run in which exactly the first \<open>k\<close> compare-and-swap attempts fail spuriously.\<close>

definition spurious_first :: "nat \<Rightarrow> nat \<Rightarrow> bool" where
  "spurious_first k n = (n < k)"

text \<open>Conversion of an integer argument to the \<^verbatim>\<open>bool\<close> parameter.\<close>

definition bool_of_int :: "int \<Rightarrow> bool" where
  "bool_of_int v = (v \<noteq> 0)"


section \<open>Range nodes, iterators and locked windows (include/crange.hh)\<close>

text \<open>
  \<^verbatim>\<open>struct range\<close>. The array \<^verbatim>\<open>markptr<range>* const next\<close> is a function from the
  level to the word stored there (field \<open>nexts\<close>); \<^verbatim>\<open>spinlock lock\<close> is the flag
  "held"; \<^verbatim>\<open>size\<close> is \<open>rsize\<close>. The back reference \<^verbatim>\<open>cr\<close> is left out: no function
  modelled here reads it.
\<close>

record range =
  key :: u64
  rsize :: u64
  curlevel :: int
  nlevel :: int
  nexts :: "nat \<Rightarrow> uptr"
  lock :: bool

text \<open>
  Nodes live in a store from addresses to nodes. Address 0 is the null pointer; reading
  through null or through an address that holds no node is a fault of the model.
\<close>

type_synonym heap = "uptr \<Rightarrow> range option"

datatype fault = Bad_pointer

definition deref :: "heap \<Rightarrow> uptr \<Rightarrow> range option" where
  "deref h a = (if a = 0 then None else h a)"

text \<open>\<^verbatim>\<open>range::deleted\<close>: \<^verbatim>\<open>return next[0].mark();\<close>\<close>

definition deleted :: "range \<Rightarrow> bool" where
  "deleted r = markptr_mark_load (nexts r 0)"

text \<open>
  \<^verbatim>\<open>class range_iterator\<close> has the single field \<^verbatim>\<open>range *_e\<close>; an iterator is that
  address. \<^verbatim>\<open>operator++\<close>: \<^verbatim>\<open>_e = _e->next[0].ptr(); return *this;\<close>
\<close>

type_synonym range_iterator = uptr

definition range_iterator_incr :: "heap \<Rightarrow> range_iterator \<Rightarrow> fault + range_iterator" where
  "range_iterator_incr h e =
     (case deref h e of
        None \<Rightarrow> Inl Bad_pointer
      | Some r \<Rightarrow> Inr (markptr_ptr_load (nexts r 0)))"

text \<open>\<^verbatim>\<open>operator*\<close> returns \<^verbatim>\<open>_e\<close>; \<^verbatim>\<open>operator!=\<close> compares the two \<^verbatim>\<open>_e\<close>.\<close>

definition range_iterator_star :: "range_iterator \<Rightarrow> uptr" where
  "range_iterator_star e = e"

definition range_iterator_neq :: "range_iterator \<Rightarrow> range_iterator \<Rightarrow> bool" where
  "range_iterator_neq a b = (a \<noteq> b)"

text \<open>
  The traversal a range-based \<^verbatim>\<open>for\<close> performs over \<^verbatim>\<open>begin(c)\<close> and \<^verbatim>\<open>end(c)\<close>:
  \<^verbatim>\<open>for (it = b; it != e; ++it) visit(*it);\<close>
  It returns the visited addresses in order. A chain that never reaches \<^verbatim>\<open>e\<close> makes
  it run forever (\<open>None\<close>).
\<close>

partial_function (option) traverse :: "heap \<Rightarrow> range_iterator \<Rightarrow> range_iterator \<Rightarrow> uptr list \<Rightarrow> (fault + uptr list) option" where
  "traverse h it e visited =
     (if range_iterator_neq it e then
        (case range_iterator_incr h it of
           Inl f \<Rightarrow> Some (Inl f)
         | Inr it' \<Rightarrow> traverse h it' e (visited @ [range_iterator_star it]))
      else Some (Inr visited))"

text \<open>
  \<^verbatim>\<open>struct crange\<close>: \<^verbatim>\<open>begin()\<close> is \<^verbatim>\<open>range_iterator(crange_head->next[0].ptr())\<close>,
  \<^verbatim>\<open>end()\<close> is \<^verbatim>\<open>range_iterator(0)\<close>.
\<close>

record crange =
  cr_nlevel :: int
  crange_head :: uptr

definition crange_begin :: "heap \<Rightarrow> crange \<Rightarrow> fault + range_iterator" where
  "crange_begin h cr =
     (case deref h (crange_head cr) of
        None \<Rightarrow> Inl Bad_pointer
      | Some r \<Rightarrow> Inr (markptr_ptr_load (nexts r 0)))"

definition crange_end :: "crange \<Rightarrow> range_iterator" where
  "crange_end cr = 0"

text \<open>
  \<^verbatim>\<open>struct crange_locked\<close>. The member \<^verbatim>\<open>scoped_gc_epoch gc\<close> is left out: its class is
  not part of these sources, and the move constructor only hands it over. The fields
  \<^verbatim>\<open>cr_\<close>, \<^verbatim>\<open>base_\<close>, \<^verbatim>\<open>size_\<close>, \<^verbatim>\<open>prev_\<close>, \<^verbatim>\<open>succ_\<close>, \<^verbatim>\<open>moved_\<close> carry the prefix
  \<open>cl\<close> instead of the trailing underscore.
\<close>

record crange_locked =
  cl_cr :: uptr
  cl_base :: u64
  cl_size :: u64
  cl_prev :: uptr
  cl_succ :: uptr
  cl_moved :: bool

text \<open>
  The move constructor copies every field of \<^verbatim>\<open>x\<close>, sets its own \<^verbatim>\<open>moved_\<close> to
  \<^verbatim>\<open>false\<close> and then \<^verbatim>\<open>x.moved_ = true\<close>. The result is the new handle and the
  source handle afterwards.
\<close>

definition crange_locked_move :: "crange_locked \<Rightarrow> crange_locked \<times> crange_locked" where
  "crange_locked_move x =
     (\<lparr>cl_cr = cl_cr x, cl_base = cl_base x, cl_size = cl_size x, cl_prev = cl_prev x, cl_succ = cl_succ x,
       cl_moved = False\<rparr>,
      x\<lparr>cl_moved := True\<rparr>)"

text \<open>
  What the destructor does, in order: reading a node's \<^verbatim>\<open>next[0].ptr()\<close> and
  releasing a node's lock.
\<close>

datatype lock_event = Read_next uptr | Release uptr

text \<open>\<^verbatim>\<open>release(&e->lock)\<close>: the spin lock of node \<open>e\<close> is no longer held.\<close>

definition release :: "heap \<Rightarrow> uptr \<Rightarrow> range \<Rightarrow> heap" where
  "release h e r = h(e := Some (r\<lparr>lock := False\<rparr>))"

text \<open>
  The loop of \<^verbatim>\<open>~crange_locked\<close>:
  \<^verbatim>\<open>for (range *e = prev_; e && e != succ_; e = n) { n = e->next[0].ptr(); release(&e->lock); }\<close>
\<close>

partial_function (option) release_loop :: "heap \<Rightarrow> uptr \<Rightarrow> uptr \<Rightarrow> lock_event list \<Rightarrow> (fault + heap \<times> lock_event list) option" where
  "release_loop h succ e tr =
     (if e \<noteq> 0 \<and> e \<noteq> succ then
        (case deref h e of
           None \<Rightarrow> Some (Inl Bad_pointer)
         | Some r \<Rightarrow>
             (let n = markptr_ptr_load (nexts r 0)
              in release_loop (release h e r) succ n (tr @ [Read_next e, Release e])))
      else Some (Inr (h, tr)))"

text \<open>\<^verbatim>\<open>~crange_locked\<close>: \<^verbatim>\<open>if (!moved_) { ... }\<close>\<close>

definition crange_locked_dtor :: "heap \<Rightarrow> crange_locked \<Rightarrow> (fault + heap \<times> lock_event list) option" where
  "crange_locked_dtor h cl =
     (if \<not> cl_moved cl then release_loop h (cl_succ cl) (cl_prev cl) []
      else Some (Inr (h, [])))"

text \<open>
  \<open>n\<close> move constructions in a row, each taken from the handle the previous one
  produced: the result is the list of the sources as the moves left them, and the
  handle produced last.
\<close>

fun move_chain :: "nat \<Rightarrow> crange_locked \<Rightarrow> crange_locked list \<times> crange_locked" where
  "move_chain 0 x = ([], x)"
| "move_chain (Suc n) x =
     (case crange_locked_move x of
        (y, x') \<Rightarrow> (case move_chain n y of (ms, z) \<Rightarrow> (x' # ms, z)))"

text \<open>
  Destroying handles one after the other: each destructor runs on the store the
  previous one left, and the traces are joined.
\<close>

fun dtor_all :: "heap \<Rightarrow> crange_locked list \<Rightarrow> lock_event list \<Rightarrow> (fault + heap \<times> lock_event list) option" where
  "dtor_all h [] tr = Some (Inr (h, tr))"
| "dtor_all h (c # cs) tr =
     (case crange_locked_dtor h c of
        None \<Rightarrow> None
      | Some (Inl f) \<Rightarrow> Some (Inl f)
      | Some (Inr (h', t)) \<Rightarrow> dtor_all h' cs (tr @ t))"

text \<open>
  \<^verbatim>\<open>crange_locked::begin\<close> is \<^verbatim>\<open>range_iterator(prev_->next[0].ptr())\<close>,
  \<^verbatim>\<open>crange_locked::end\<close> is \<^verbatim>\<open>range_iterator(succ_)\<close>.
\<close>

definition crange_locked_begin :: "heap \<Rightarrow> crange_locked \<Rightarrow> fault + range_iterator" where
  "crange_locked_begin h cl =
     (case deref h (cl_prev cl) of
        None \<Rightarrow> Inl Bad_pointer
      | Some r \<Rightarrow> Inr (markptr_ptr_load (nexts r 0)))"

definition crange_locked_end :: "crange_locked \<Rightarrow> range_iterator" where
  "crange_locked_end cl = cl_succ cl"

text \<open>
  Two descriptions of the level-0 chain, used to state what the loops visit.
  \<open>linked h a xs b\<close>: starting at address \<open>a\<close> and following \<^verbatim>\<open>next[0].ptr()\<close>, the
  nodes met before the first arrival at \<open>b\<close> are exactly \<open>xs\<close>.
  \<open>lock_chain h a xs s\<close>: the same, where the walk ends at the first arrival at \<open>s\<close> or
  at null.
\<close>

fun linked :: "heap \<Rightarrow> uptr \<Rightarrow> uptr list \<Rightarrow> uptr \<Rightarrow> bool" where
  "linked h a [] b = (a = b)"
| "linked h a (x # xs) b =
     (a = x \<and> x \<noteq> b \<and>
      (case deref h x of
         None \<Rightarrow> False
       | Some r \<Rightarrow> linked h (markptr_ptr_load (nexts r 0)) xs b))"

fun lock_chain :: "heap \<Rightarrow> uptr \<Rightarrow> uptr list \<Rightarrow> uptr \<Rightarrow> bool" where
  "lock_chain h a [] s = (a = 0 \<or> a = s)"
| "lock_chain h a (x # xs) s =
     (a = x \<and> x \<noteq> 0 \<and> x \<noteq> s \<and>
      (case deref h x of
         None \<Rightarrow> False
       | Some r \<Rightarrow> lock_chain h (markptr_ptr_load (nexts r 0)) xs s))"

text \<open>The events of releasing the nodes \<open>xs\<close> one after the other, each read first.\<close>

definition release_events :: "uptr list \<Rightarrow> lock_event list" where
  "release_events xs = concat (map (\<lambda>e. [Read_next e, Release e]) xs)"

text \<open>The store after the locks of the nodes \<open>xs\<close> have been released.\<close>

definition unlocked :: "heap \<Rightarrow> uptr list \<Rightarrow> heap" where
  "unlocked h xs = (\<lambda>a. if a \<in> set xs then map_option (\<lambda>r. r\<lparr>lock := False\<rparr>) (h a) else h a)"

subsection \<open>A concrete store\<close>

text \<open>
  A head sentinel at address \<open>0x1000\<close> followed by three nodes. The node at \<open>0x2000\<close>
  is logically deleted: the word in its \<^verbatim>\<open>next[0]\<close> is \<open>0x3001\<close>, the address \<open>0x3000\<close>
  with the mark bit set. The window covers the nodes at \<open>0x2000\<close> and \<open>0x3000\<close>, with
  \<^verbatim>\<open>prev_\<close> the head and \<^verbatim>\<open>succ_\<close> the node at \<open>0x4000\<close>.
\<close>

definition node :: "u64 \<Rightarrow> u64 \<Rightarrow> uptr \<Rightarrow> bool \<Rightarrow> range" where
  "node k sz nx held = \<lparr>key = k, rsize = sz, curlevel = 1, nlevel = 1, nexts = (\<lambda>l. nx), lock = held\<rparr>"

definition example_heap :: heap where
  "example_heap =
     (\<lambda>a. None)(0x1000 := Some (node 0 0 0x2000 True),
                0x2000 := Some (node 10 5 0x3001 True),
                0x3000 := Some (node 20 5 0x4000 True),
                0x4000 := Some (node 30 5 0 False))"

definition example_window :: crange_locked where
  "example_window = \<lparr>cl_cr = 0x800, cl_base = 10, cl_size = 20, cl_prev = 0x1000, cl_succ = 0x4000,
     cl_moved = False\<rparr>"

definition example_crange :: crange where
  "example_crange = \<lparr>cr_nlevel = 1, crange_head = 0x1000\<rparr>"

section \<open>User work queues (kernel/uwq.cc)\<close>

text \<open>
  Processes, work queues and workers are referred to by pointers; each kind lives in
  its own store, and a pointer that may be null is an \<open>option\<close>. The records hold the
  fields that \<^verbatim>\<open>uwq.cc\<close> reads or writes. Names with a trailing underscore in the
  source carry a prefix here: \<^verbatim>\<open>uwq_worker::proc_\<close> is \<open>w_proc\<close>, \<^verbatim>\<open>uwq::len_\<close> is
  \<open>u_len\<close>, and so on.
\<close>

type_synonym proc_ptr = nat
type_synonym uwq_ptr = nat
type_synonym worker_ptr = nat

record uwq_worker =
  w_uwq :: uwq_ptr
  w_proc :: proc_ptr
  w_running :: bool

record proc =
  p_uwq :: "uwq_ptr option"
  p_worker :: "worker_ptr option"
  p_cpuid :: nat

text \<open>
  \<^verbatim>\<open>uwq::valid()\<close> is declared outside these sources; its answer is the field
  \<open>u_valid\<close>. \<^verbatim>\<open>len_\<close> is null or an array of \<^verbatim>\<open>NCPU\<close> counters \<^verbatim>\<open>v_\<close>; \<^verbatim>\<open>worker_\<close> is
  an array of \<^verbatim>\<open>NWORKERS\<close> pointers.
\<close>

record uwq =
  u_valid :: bool
  u_len :: "(nat \<Rightarrow> u64) option"
  u_worker :: "nat \<Rightarrow> worker_ptr option"
  u_uentry :: uptr
  u_ustack :: uptr
  u_uref :: u64

record kernel =
  cpus :: "nat \<Rightarrow> proc_ptr option"
  procs :: "proc_ptr \<Rightarrow> proc"
  uwqs :: "uwq_ptr \<Rightarrow> uwq"
  workers :: "worker_ptr \<Rightarrow> uwq_worker"

text \<open>The constants of the kernel configuration, defined outside these sources.\<close>

record config =
  NCPU :: u64
  NWORKERS :: nat
  USTACKPAGES :: u64
  PGSIZE :: u64

text \<open>
  What the calls into the rest of the kernel answer during one call of
  \<^verbatim>\<open>uwq_trywork\<close>: the time stamp counter, the id of the calling CPU, and the results
  of \<^verbatim>\<open>proc::alloc()\<close>, \<^verbatim>\<open>new vmnode(USTACKPAGES)\<close> (whether it is non-null),
  \<^verbatim>\<open>vmap_->insert(vmn, ustack_, 1)\<close> and \<^verbatim>\<open>new uwq_worker(this, p)\<close>.
\<close>

record env =
  rdtsc :: u64
  mycpuid :: nat
  proc_alloc :: "proc_ptr option"
  vmnode_new :: bool
  vmap_insert :: int
  worker_new :: "worker_ptr option"

text \<open>
  The observable steps. The first three carry the index of the CPU concerned and the
  number of epoch guards (\<^verbatim>\<open>scoped_gc_epoch\<close> objects) live on the calling thread at
  that moment.
\<close>

datatype event =
  Read_proc nat nat
| Call_haswork nat nat
| Call_tryworker nat nat
| Cv_wakeup worker_ptr
| Addrun proc_ptr

text \<open>A function either returns a value or stops the kernel in a failed \<^verbatim>\<open>assert\<close>.\<close>

datatype 'a outcome = Returns 'a | Panics

text \<open>
  \<^verbatim>\<open>uwq::haswork\<close>: \<^verbatim>\<open>if (len_ == nullptr) return false;
  for (int i = 0; i < NCPU; i++) if (len_[i].v_ > 0) return true; return false;\<close>
\<close>

function haswork_loop :: "nat \<Rightarrow> (nat \<Rightarrow> u64) \<Rightarrow> nat \<Rightarrow> bool" where
  "haswork_loop ncpu len i =
     (if i < ncpu then
        (if len i > 0 then True else haswork_loop ncpu len (Suc i))
      else False)"
  by pat_completeness auto
termination
  by (relation "measure (\<lambda>(ncpu, len, i). ncpu - i)") auto

definition haswork :: "config \<Rightarrow> uwq \<Rightarrow> bool" where
  "haswork cfg u =
     (case u_len u of
        None \<Rightarrow> False
      | Some len \<Rightarrow> haswork_loop (unat (NCPU cfg)) len 0)"

text \<open>
  \<^verbatim>\<open>uwq::allocworker\<close>. It returns null when \<^verbatim>\<open>uentry_\<close> is 0, when \<^verbatim>\<open>proc::alloc()\<close>
  or \<^verbatim>\<open>new vmnode\<close> gives null, or when \<^verbatim>\<open>vmap_->insert\<close> is negative; otherwise it
  advances \<^verbatim>\<open>ustack_\<close> by \<^verbatim>\<open>(USTACKPAGES*PGSIZE)+PGSIZE\<close> and returns the new process.
  The reference counts of \<^verbatim>\<open>vmap_\<close> and \<^verbatim>\<open>ftable_\<close> and the trap frame of the new
  process are outside the model.
\<close>

definition allocworker :: "config \<Rightarrow> env \<Rightarrow> kernel \<Rightarrow> uwq_ptr \<Rightarrow> proc_ptr option \<times> kernel" where
  "allocworker cfg en k up =
     (let u = uwqs k up;
          uentry = u_uentry u
      in if uentry = 0 then (None, k)
         else (case proc_alloc en of
                 None \<Rightarrow> (None, k)
               | Some p \<Rightarrow>
                   if \<not> vmnode_new en then (None, k)
                   else if vmap_insert en < 0 then (None, k)
                   else (Some p,
                         k\<lparr>uwqs := (uwqs k)(up := u\<lparr>u_ustack :=
                              u_ustack u + (USTACKPAGES cfg * PGSIZE cfg + PGSIZE cfg)\<rparr>)\<rparr>)))"

text \<open>
  The loop of \<^verbatim>\<open>uwq::tryworker\<close> over \<^verbatim>\<open>worker_[0..NWORKERS)\<close>: an empty entry sets
  \<^verbatim>\<open>slot\<close> if it is still \<open>-1\<close>; a running worker is skipped; the first worker that
  is not running ends the loop (\<open>Inl\<close>, with its pointer). Falling out of the loop
  gives \<^verbatim>\<open>slot\<close> (\<open>Inr\<close>).
\<close>

function tryworker_loop :: "nat \<Rightarrow> (nat \<Rightarrow> worker_ptr option) \<Rightarrow> (worker_ptr \<Rightarrow> uwq_worker) \<Rightarrow> nat \<Rightarrow> int \<Rightarrow> worker_ptr + int" where
  "tryworker_loop nworkers worker ws i slot =
     (if i < nworkers then
        (case worker i of
           None \<Rightarrow> tryworker_loop nworkers worker ws (Suc i) (if slot = -1 then int i else slot)
         | Some w \<Rightarrow>
             if w_running (ws w) then tryworker_loop nworkers worker ws (Suc i) slot
             else Inl w)
      else Inr slot)"
  by pat_completeness auto
termination
  by (relation "measure (\<lambda>(nworkers, worker, ws, i, slot). nworkers - i)") auto

text \<open>
  The operand of a \<^verbatim>\<open>return\<close> statement of \<^verbatim>\<open>uwq::tryworker\<close>, whose return type is
  \<^verbatim>\<open>bool\<close>: a boolean literal or \<^verbatim>\<open>nullptr\<close>. The conversion of a null pointer to
  \<^verbatim>\<open>bool\<close> gives \<^verbatim>\<open>false\<close>.
\<close>

datatype return_operand = Literal bool | Nullptr

definition bool_of_operand :: "return_operand \<Rightarrow> bool" where
  "bool_of_operand e = (case e of Literal b \<Rightarrow> b | Nullptr \<Rightarrow> False)"

text \<open>
  \<^verbatim>\<open>uwq::tryworker\<close>, with the operand of the \<^verbatim>\<open>return\<close> statement it ends in. The locks
  \<^verbatim>\<open>lock_\<close>, \<^verbatim>\<open>w->lock_\<close> and \<^verbatim>\<open>p->lock\<close> are taken and released inside the call and are
  not part of the state.
\<close>

definition tryworker_body :: "config \<Rightarrow> env \<Rightarrow> kernel \<Rightarrow> uwq_ptr \<Rightarrow> return_operand outcome \<times> kernel \<times> event list" where
  "tryworker_body cfg en k up =
     (let u = uwqs k up
      in if \<not> u_valid u then (Returns (Literal False), k, [])
         else (case tryworker_loop (NWORKERS cfg) (u_worker u) (workers k) 0 (-1) of
                 Inl w \<Rightarrow>
                   (let p = w_proc (workers k w);
                        k1 = k\<lparr>procs := (procs k)(p := (procs k p)\<lparr>p_cpuid := mycpuid en\<rparr>)\<rparr>;
                        k2 = k1\<lparr>workers := (workers k1)(w := (workers k1 w)\<lparr>w_running := True\<rparr>)\<rparr>
                    in (Returns (Literal True), k2, [Cv_wakeup w]))
               | Inr slot \<Rightarrow>
                   if slot \<noteq> -1 then
                     (case allocworker cfg en k up of
                        (None, k1) \<Rightarrow> (Returns Nullptr, k1, [])
                      | (Some p, k1) \<Rightarrow>
                          (case worker_new en of
                             None \<Rightarrow> (Panics, k1, [])
                           | Some w \<Rightarrow>
                               (let u1 = uwqs k1 up;
                                    k2 = k1\<lparr>workers := (workers k1)(w :=
                                           \<lparr>w_uwq = up, w_proc = p, w_running = False\<rparr>)\<rparr>;
                                    k3 = k2\<lparr>uwqs := (uwqs k2)(up := u1\<lparr>u_uref := u_uref u1 + 1\<rparr>)\<rparr>;
                                    k4 = k3\<lparr>procs := (procs k3)(p := (procs k3 p)\<lparr>p_worker := Some w\<rparr>)\<rparr>;
                                    k5 = k4\<lparr>workers := (workers k4)(w := (workers k4 w)\<lparr>w_running := True\<rparr>)\<rparr>;
                                    k6 = k5\<lparr>procs := (procs k5)(p := (procs k5 p)\<lparr>p_cpuid := mycpuid en\<rparr>)\<rparr>;
                                    u6 = uwqs k6 up;
                                    k7 = k6\<lparr>uwqs := (uwqs k6)(up :=
                                           u6\<lparr>u_worker := (u_worker u6)(nat slot := Some w)\<rparr>)\<rparr>
                                in (Returns (Literal True), k7, [Addrun p]))))
                   else (Returns Nullptr, k, [])))"

text \<open>\<^verbatim>\<open>uwq::tryworker\<close> as its callers see it: the operand converted to \<^verbatim>\<open>bool\<close>.\<close>

definition tryworker :: "config \<Rightarrow> env \<Rightarrow> kernel \<Rightarrow> uwq_ptr \<Rightarrow> bool outcome \<times> kernel \<times> event list" where
  "tryworker cfg en k up =
     (case tryworker_body cfg en k up of
        (Returns e, k', evs) \<Rightarrow> (Returns (bool_of_operand e), k', evs)
      | (Panics, k', evs) \<Rightarrow> (Panics, k', evs))"

text \<open>
  The statement \<^verbatim>\<open>scoped_gc_epoch xgc();\<close> in the loop of \<^verbatim>\<open>uwq_trywork\<close>. A
  declaration of the form \<^verbatim>\<open>T name();\<close> declares a function \<^verbatim>\<open>name\<close> that takes no
  argument and returns \<^verbatim>\<open>T\<close>; it defines no object, so no constructor runs and no
  guard is entered. An object definition (\<^verbatim>\<open>T name;\<close>) would enter a guard for the
  rest of the enclosing block.
\<close>

datatype statement_form = Object_definition | Function_declaration

definition xgc_statement :: statement_form where
  "xgc_statement = Function_declaration"

definition guards_after :: "statement_form \<Rightarrow> nat \<Rightarrow> nat" where
  "guards_after d g = (case d of Object_definition \<Rightarrow> Suc g | Function_declaration \<Rightarrow> g)"

text \<open>
  The loop of \<^verbatim>\<open>uwq_trywork\<close>:
  \<^verbatim>\<open>for (i = 0; i < NCPU; i++) { u64 j = (i+k) % NCPU; if (j == mycpuid()) continue; ... }\<close>
  with \<^verbatim>\<open>u64 i, k\<close>. The argument \<open>g\<close> is the number of epoch guards live on the
  calling thread when \<^verbatim>\<open>uwq_trywork\<close> is entered. Leaving the loop by \<^verbatim>\<open>break\<close> or by
  its condition ends in \<^verbatim>\<open>return false\<close>.
\<close>

function uwq_trywork_loop :: "config \<Rightarrow> env \<Rightarrow> kernel \<Rightarrow> nat \<Rightarrow> u64 \<Rightarrow> u64 \<Rightarrow> event list \<Rightarrow> bool outcome \<times> kernel \<times> event list" where
  "uwq_trywork_loop cfg en kern g k i tr =
     (if i < NCPU cfg then
        (let j = unat ((i + k) mod NCPU cfg)
         in if j = mycpuid en then uwq_trywork_loop cfg en kern g k (i + 1) tr
            else
              (let g' = guards_after xgc_statement g;
                   tr1 = tr @ [Read_proc j g']
               in case cpus kern j of
                    None \<Rightarrow> uwq_trywork_loop cfg en kern g k (i + 1) tr1
                  | Some p \<Rightarrow>
                      (case p_uwq (procs kern p) of
                         None \<Rightarrow> uwq_trywork_loop cfg en kern g k (i + 1) tr1
                       | Some up \<Rightarrow>
                           (let tr2 = tr1 @ [Call_haswork j g']
                            in if haswork cfg (uwqs kern up) then
                                 (case tryworker cfg en kern up of
                                    (Returns b, kern', evs) \<Rightarrow>
                                      if b then (Returns True, kern', tr2 @ Call_tryworker j g' # evs)
                                      else (Returns False, kern', tr2 @ Call_tryworker j g' # evs)
                                  | (Panics, kern', evs) \<Rightarrow>
                                      (Panics, kern', tr2 @ Call_tryworker j g' # evs))
                               else uwq_trywork_loop cfg en kern g k (i + 1) tr2))))
      else (Returns False, kern, tr))"
  by pat_completeness auto
termination
  by (relation "measure (\<lambda>(cfg, en, kern, g, k, i, tr). unat (NCPU cfg) - unat i)")
    (simp, unat_arith, unat_arith, unat_arith, unat_arith)

text \<open>\<^verbatim>\<open>uwq_trywork\<close>: \<^verbatim>\<open>k = rdtsc();\<close> and the loop from \<^verbatim>\<open>i = 0\<close>.\<close>

definition uwq_trywork :: "config \<Rightarrow> env \<Rightarrow> kernel \<Rightarrow> nat \<Rightarrow> bool outcome \<times> kernel \<times> event list" where
  "uwq_trywork cfg en kern g = uwq_trywork_loop cfg en kern g (rdtsc en) 0 []"


text \<open>
  Notions used to state what \<^verbatim>\<open>uwq_trywork\<close> does. \<open>probe cfg k n\<close> is the CPU index
  \<^verbatim>\<open>(i+k) % NCPU\<close> examined in iteration \<open>i = n\<close>; \<open>uwq_at kern j\<close> is the work queue
  of the process current on CPU \<open>j\<close>, if both exist; a victim is a CPU other than the
  caller's whose current process has a work queue that reports work.
\<close>

definition probe :: "config \<Rightarrow> u64 \<Rightarrow> nat \<Rightarrow> nat" where
  "probe cfg k n = unat ((word_of_nat n + k) mod NCPU cfg)"

definition probe_order :: "config \<Rightarrow> u64 \<Rightarrow> nat list" where
  "probe_order cfg k = map (probe cfg k) [0..<unat (NCPU cfg)]"

definition uwq_at :: "kernel \<Rightarrow> nat \<Rightarrow> uwq_ptr option" where
  "uwq_at kern j =
     (case cpus kern j of
        None \<Rightarrow> None
      | Some p \<Rightarrow> p_uwq (procs kern p))"

definition victim :: "config \<Rightarrow> env \<Rightarrow> kernel \<Rightarrow> nat \<Rightarrow> bool" where
  "victim cfg en kern j =
     (j \<noteq> mycpuid en \<and>
      (case uwq_at kern j of
         None \<Rightarrow> False
       | Some up \<Rightarrow> haswork cfg (uwqs kern up)))"

text \<open>The CPUs on which \<^verbatim>\<open>tryworker\<close> was called, in order, and the CPUs examined.\<close>

fun tryworker_calls :: "event list \<Rightarrow> nat list" where
  "tryworker_calls [] = []"
| "tryworker_calls (Call_tryworker j c # es) = j # tryworker_calls es"
| "tryworker_calls (e # es) = tryworker_calls es"

fun examined :: "event list \<Rightarrow> nat list" where
  "examined [] = []"
| "examined (Read_proc j c # es) = j # examined es"
| "examined (Call_haswork j c # es) = j # examined es"
| "examined (Call_tryworker j c # es) = j # examined es"
| "examined (e # es) = examined es"

text \<open>The numbers of live epoch guards recorded in a trace.\<close>

fun guard_counts :: "event list \<Rightarrow> nat list" where
  "guard_counts [] = []"
| "guard_counts (Read_proc j c # es) = c # guard_counts es"
| "guard_counts (Call_haswork j c # es) = c # guard_counts es"
| "guard_counts (Call_tryworker j c # es) = c # guard_counts es"
| "guard_counts (e # es) = guard_counts es"

text \<open>Whether a trace holds a wake-up of a worker, or the enqueueing of a new one.\<close>

fun wakes_or_enqueues :: "event list \<Rightarrow> bool" where
  "wakes_or_enqueues [] = False"
| "wakes_or_enqueues (Cv_wakeup w # es) = True"
| "wakes_or_enqueues (Addrun p # es) = True"
| "wakes_or_enqueues (e # es) = wakes_or_enqueues es"

subsection \<open>A concrete kernel state\<close>

text \<open>
  Three CPUs; the caller runs on CPU 0 and the time stamp counter reads 0, so the
  CPUs are examined in the order 0, 1, 2. CPU 1 runs process 7 with work queue 3,
  CPU 2 runs process 8 with work queue 4. Each work queue is valid, has one pending
  item in the counter of CPU 0, an entry point, and no worker yet. Every allocation
  succeeds.
\<close>

definition example_config :: config where
  "example_config = \<lparr>NCPU = 3, NWORKERS = 2, USTACKPAGES = 8, PGSIZE = 4096\<rparr>"

definition example_env :: env where
  "example_env = \<lparr>rdtsc = 0, mycpuid = 0, proc_alloc = Some 9, vmnode_new = True,
     vmap_insert = 0, worker_new = Some 5\<rparr>"

definition example_uwq :: uwq where
  "example_uwq = \<lparr>u_valid = True, u_len = Some (\<lambda>i. if i = 0 then 1 else 0),
     u_worker = (\<lambda>i. None), u_uentry = 0x400000, u_ustack = 0x7000000, u_uref = 0\<rparr>"

definition example_kernel :: kernel where
  "example_kernel = \<lparr>cpus = (\<lambda>j. if j = 1 then Some 7 else if j = 2 then Some 8 else None),
     procs = (\<lambda>p. \<lparr>p_uwq = (if p = 7 then Some 3 else if p = 8 then Some 4 else None),
                  p_worker = None, p_cpuid = 1\<rparr>),
     uwqs = (\<lambda>u. example_uwq),
     workers = (\<lambda>w. \<lparr>w_uwq = 3, w_proc = 0, w_running = True\<rparr>)\<rparr>"

text \<open>The same state with invalid work queues: \<^verbatim>\<open>tryworker\<close> returns \<^verbatim>\<open>false\<close>.\<close>

definition example_kernel_invalid :: kernel where
  "example_kernel_invalid = example_kernel\<lparr>uwqs := (\<lambda>u. example_uwq\<lparr>u_valid := False\<rparr>)\<rparr>"

text \<open>An environment in which \<^verbatim>\<open>proc::alloc()\<close> fails: \<^verbatim>\<open>tryworker\<close> ends in \<^verbatim>\<open>return nullptr\<close>.\<close>

definition example_env_noproc :: env where
  "example_env_noproc = example_env\<lparr>proc_alloc := None\<rparr>"


section \<open>Properties of the marked pointer\<close>

lemma mark_load_odd: "markptr_mark_load w = odd w"
  by (simp add: markptr_mark_load_def and_one_eq mod_2_eq_odd)

lemma bit_ptr_load: "bit (markptr_ptr_load w) n = (bit w n \<and> n \<noteq> 0)"
  unfolding markptr_ptr_load_def
  by (auto simp only: bit_and_iff bit_not_iff bit_1_iff dest: bit_imp_possible_bit)

lemma aligned_even: "(p AND 1 = 0) = even p" for p :: uptr
  by (simp add: and_one_eq mod_2_eq_odd)

lemma word_split_ptr_mark:
  "(w = e) \<longleftrightarrow> (markptr_ptr_load w = markptr_ptr_load e \<and> markptr_mark_load w = markptr_mark_load e)"
proof
  assume "w = e" then show "markptr_ptr_load w = markptr_ptr_load e \<and> markptr_mark_load w = markptr_mark_load e" by simp
next
  assume h: "markptr_ptr_load w = markptr_ptr_load e \<and> markptr_mark_load w = markptr_mark_load e"
  show "w = e"
  proof (rule bit_word_eqI)
    fix n assume "n < LENGTH(64)"
    show "bit w n = bit e n"
    proof (cases n)
      case 0
      from h have "odd w = odd e" by (simp add: mark_load_odd)
      with 0 show ?thesis by (simp add: bit_0)
    next
      case (Suc m)
      from h have "bit (markptr_ptr_load w) n = bit (markptr_ptr_load e) n" by simp
      with Suc show ?thesis by (simp add: bit_ptr_load)
    qed
  qed
qed

lemma ptr_of_store: "p AND 1 = 0 \<Longrightarrow> markptr_ptr_load ((p0 AND 1) OR p) = p"
proof (rule bit_word_eqI)
  fix n assume a: "p AND 1 = 0"
  then have "even p" by (simp add: aligned_even)
  then show "bit (markptr_ptr_load ((p0 AND 1) OR p)) n = bit p n"
    using bit_0 [of p] by (cases "n = 0") (auto simp: bit_ptr_load bit_or_iff bit_and_iff bit_1_iff)
qed

lemma mark_of_store: "p AND 1 = 0 \<Longrightarrow> markptr_mark_load ((p0 AND 1) OR p) = markptr_mark_load p0"
  by (simp add: mark_load_odd aligned_even even_or_iff even_and_iff)

lemma ptr_of_mark_store: "markptr_ptr_load ((p0 AND NOT 1) OR of_bool m) = markptr_ptr_load p0"
  by (rule bit_word_eqI) (auto simp: bit_ptr_load bit_or_iff bit_and_iff bit_not_iff bit_1_iff bit_of_bool_iff)

lemma mark_of_mark_store: "markptr_mark_load ((p0 AND NOT 1) OR of_bool m) = m"
  by (simp add: mark_load_odd even_or_iff even_and_iff)

lemma cew_cases:
  "compare_exchange_weak s w w d = (if s then (False, w, w) else (True, d, w))"
  by (simp add: compare_exchange_weak_def)

lemma ptr_assign_returns:
  assumes "\<not> sp j" "i \<le> j"
  shows "\<exists>k. i \<le> k \<and> k \<le> j \<and> markptr_ptr_assign sp i w p = Some ((w AND 1) OR p)"
  using assms
proof (induction "j - i" arbitrary: i)
  case 0
  then have "i = j" by simp
  with 0 show ?case by (subst markptr_ptr_assign.simps) (auto simp: cew_cases)
next
  case (Suc n)
  show ?case
  proof (cases "sp i")
    case False
    then show ?thesis using Suc.prems by (subst markptr_ptr_assign.simps) (auto simp: cew_cases)
  next
    case True
    from Suc have "n = j - Suc i" "Suc i \<le> j" by auto
    from Suc.hyps(1)[OF this(1) Suc.prems(1) this(2)] True
    show ?thesis by (subst markptr_ptr_assign.simps) (auto simp: cew_cases)
  qed
qed


lemma mark_assign_returns:
  assumes "\<not> sp j" "i \<le> j"
  shows "markptr_mark_assign sp i w m = Some ((w AND NOT 1) OR of_bool m)"
  using assms
proof (induction "j - i" arbitrary: i)
  case 0
  then have "i = j" by simp
  with 0 show ?case by (subst markptr_mark_assign.simps) (auto simp: cew_cases)
next
  case (Suc n)
  show ?case
  proof (cases "sp i")
    case False
    then show ?thesis by (subst markptr_mark_assign.simps) (auto simp: cew_cases)
  next
    case True
    from Suc have "n = j - Suc i" "Suc i \<le> j" by auto
    from Suc.hyps(1)[OF this(1) Suc.prems(1) this(2)] True
    show ?thesis by (subst markptr_mark_assign.simps) (auto simp: cew_cases)
  qed
qed

text \<open>
  C3. \<^verbatim>\<open>markptr::cmpxch(expected, desired)\<close> is a compare-and-swap on the whole word: it
  succeeds only when the stored word agrees with \<^verbatim>\<open>expected\<close> in the pointer
  component and in the mark bit at once (and then exactly when the weak
  compare-and-swap does not fail spuriously); on success the stored word is
  \<^verbatim>\<open>desired\<close>, on failure it is unchanged.
\<close>

theorem cmpxch_whole_word:
  assumes "cmpxch spurious stored expected desired = (ok, stored')"
  shows "(ok \<longrightarrow> markptr_ptr_load stored = markptr_ptr_load expected \<and>
                markptr_mark_load stored = markptr_mark_load expected \<and>
                stored' = desired) \<and>
         (\<not> ok \<longrightarrow> stored' = stored) \<and>
         ok = (markptr_ptr_load stored = markptr_ptr_load expected \<and>
               markptr_mark_load stored = markptr_mark_load expected \<and> \<not> spurious)"
proof -
  have "(stored = expected) =
        (markptr_ptr_load stored = markptr_ptr_load expected \<and>
         markptr_mark_load stored = markptr_mark_load expected)"
    by (rule word_split_ptr_mark)
  with assms show ?thesis
    by (auto simp: cmpxch_def compare_exchange_weak_def split: if_splits)
qed

theorem cmpxch_whole_word_witness:
  "cmpxch False 0x2001 0x2001 0x3000 = (True, 0x3000) \<and>
   markptr_ptr_load 0x2001 = markptr_ptr_load 0x2001 \<and>
   markptr_mark_load 0x2001 = markptr_mark_load 0x2001 \<and>
   cmpxch False 0x2001 0x2000 0x3000 = (False, 0x2001) \<and>
   markptr_ptr_load 0x2001 = markptr_ptr_load 0x2000 \<and>
   markptr_mark_load 0x2001 \<noteq> markptr_mark_load 0x2000"
proof -
  have a: "cmpxch False 0x2001 0x2001 0x3000 = (True, 0x3000)"
    by (simp add: cmpxch_def compare_exchange_weak_def)
  have b: "cmpxch False 0x2001 0x2000 0x3000 = (False, 0x2001)"
    by (simp add: cmpxch_def compare_exchange_weak_def)
  from cmpxch_whole_word [OF a] cmpxch_whole_word [OF b] a b show ?thesis
    by (simp add: markptr_ptr_load_def)
qed

text \<open>
  C4. For every stored word and every pointer \<open>p\<close> whose low bit is clear (a pointer to
  a node is aligned, so the low bit is free for the mark), storing \<open>p\<close> through the
  pointer view returns as soon as one compare-and-swap attempt does not fail
  spuriously; afterwards the pointer component is \<open>p\<close>, which is what
  \<^verbatim>\<open>load_ptr\<close> returns, and the mark bit is the one that was stored before.
\<close>

theorem markptr_ptr_assign_preserves_mark:
  assumes "p AND 1 = 0" and "\<not> sp j" and "i \<le> j"
  shows "\<exists>w'. markptr_ptr_assign sp i w p = Some w' \<and>
              markptr_ptr_load w' = p \<and>
              markptr_mark_load w' = markptr_mark_load w"
proof -
  from assms(2,3) have "markptr_ptr_assign sp i w p = Some ((w AND 1) OR p)"
    using ptr_assign_returns [of sp j i w p] by blast
  with assms(1) show ?thesis
    by (simp add: ptr_of_store mark_of_store)
qed

theorem markptr_ptr_assign_preserves_mark_witness:
  "(0x3000 :: uptr) AND 1 = 0 \<and> \<not> spurious_first 2 2 \<and> (0::nat) \<le> 2 \<and>
   markptr_ptr_assign (spurious_first 2) 0 0x2001 0x3000 = Some 0x3001 \<and>
   markptr_ptr_load 0x3001 = 0x3000 \<and>
   markptr_mark_load 0x3001 = markptr_mark_load 0x2001"
proof -
  have a: "(0x3000 :: uptr) AND 1 = 0" by simp
  have b: "\<not> spurious_first 2 2" by (simp add: spurious_first_def)
  have c: "(0::nat) \<le> 2" by simp
  have d: "markptr_ptr_assign (spurious_first 2) 0 0x2001 0x3000 = Some 0x3001"
    by (simp add: markptr_ptr_assign.simps compare_exchange_weak_def spurious_first_def)
  from markptr_ptr_assign_preserves_mark
    [where p = "0x3000" and sp = "spurious_first 2" and j = 2 and i = 0 and w = "0x2001", OF a b c]
    a b d
  show ?thesis
    by simp
qed

text \<open>
  The alignment of \<open>p\<close> is needed: the low bit of an odd \<open>p\<close> is or-ed into the word and
  reads back as a set mark.
\<close>

lemma markptr_ptr_assign_odd_pointer:
  "markptr_ptr_assign (\<lambda>n. False) 0 0x2000 0x3001 = Some 0x3001 \<and>
   \<not> markptr_mark_load 0x2000 \<and> markptr_mark_load 0x3001"
  by (simp add: markptr_ptr_assign.simps compare_exchange_weak_def markptr_mark_load_def)

text \<open>
  C5. For every stored word and every boolean \<open>m\<close>, storing \<open>m\<close> through the mark view
  returns as soon as one compare-and-swap attempt does not fail spuriously; afterwards
  the mark bit reads \<open>m\<close> (for an integer argument \<open>v\<close> converted to the parameter, the
  low bit is 1 whenever \<open>v\<close> is non-zero) and the pointer component is the one that was
  stored before.
\<close>

theorem markptr_mark_assign_preserves_ptr:
  assumes "\<not> sp j" and "i \<le> j"
  shows "\<exists>w'. markptr_mark_assign sp i w m = Some w' \<and>
              markptr_mark_load w' = m \<and>
              markptr_ptr_load w' = markptr_ptr_load w \<and>
              (\<forall>v. m = bool_of_int v \<longrightarrow> w' AND 1 = (if v = 0 then 0 else 1))"
proof -
  from assms have r: "markptr_mark_assign sp i w m = Some ((w AND NOT 1) OR of_bool m)"
    by (rule mark_assign_returns)
  have a: "markptr_mark_load ((w AND NOT 1) OR of_bool m) = m"
    by (rule mark_of_mark_store)
  have b: "markptr_ptr_load ((w AND NOT 1) OR of_bool m) = markptr_ptr_load w"
    by (rule ptr_of_mark_store)
  have "((w AND NOT 1) OR of_bool m) AND 1 = of_bool m"
    by (rule bit_word_eqI) (auto simp: bit_or_iff bit_and_iff bit_not_iff bit_1_iff bit_of_bool_iff)
  then have c: "\<forall>v. m = bool_of_int v \<longrightarrow>
      ((w AND NOT 1) OR of_bool m) AND 1 = (if v = 0 then 0 else 1)"
    by (auto simp: bool_of_int_def)
  from r a b c show ?thesis by blast
qed

theorem markptr_mark_assign_preserves_ptr_witness:
  "\<not> spurious_first 1 1 \<and> (0::nat) \<le> 1 \<and>
   markptr_mark_assign (spurious_first 1) 0 0x2000 (bool_of_int 7) = Some 0x2001 \<and>
   markptr_mark_load 0x2001 = bool_of_int 7 \<and>
   markptr_ptr_load 0x2001 = markptr_ptr_load 0x2000 \<and>
   (0x2001 :: uptr) AND 1 = 1"
proof -
  have b: "\<not> spurious_first 1 1" by (simp add: spurious_first_def)
  have c: "(0::nat) \<le> 1" by simp
  have d: "markptr_mark_assign (spurious_first 1) 0 0x2000 (bool_of_int 7) = Some 0x2001"
    by (simp add: markptr_mark_assign.simps compare_exchange_weak_def bool_of_int_def
        spurious_first_def)
  from markptr_mark_assign_preserves_ptr
    [where sp = "spurious_first 1" and j = 1 and i = 0 and w = "0x2000" and m = "bool_of_int 7",
      OF b c]
    b d
  show ?thesis
    by (simp add: bool_of_int_def)
qed


section \<open>Properties of iterators and locked windows\<close>

lemma traverse_linked:
  "linked h a xs b \<Longrightarrow> traverse h a b acc = Some (Inr (acc @ xs))"
proof (induction xs arbitrary: a acc)
  case Nil
  then show ?case by (subst traverse.simps) (simp add: range_iterator_neq_def)
next
  case (Cons x xs)
  from Cons.prems obtain r where r: "a = x" "x \<noteq> b" "deref h x = Some r"
    "linked h (markptr_ptr_load (nexts r 0)) xs b"
    by (auto split: option.splits)
  from Cons.IH [OF r(4), of "acc @ [x]"] r(1-3) show ?case
    by (subst traverse.simps)
      (simp add: range_iterator_neq_def range_iterator_incr_def range_iterator_star_def)
qed

lemma linked_ends:
  "linked h a xs b \<Longrightarrow>
     (xs = [] \<longrightarrow> a = b) \<and>
     (xs \<noteq> [] \<longrightarrow> a = hd xs \<and> (\<exists>r. deref h (last xs) = Some r \<and> markptr_ptr_load (nexts r 0) = b))"
proof (induction xs arbitrary: a)
  case Nil
  then show ?case by simp
next
  case (Cons x xs)
  then show ?case by (cases xs) (auto split: option.splits)
qed

lemma linked_not_end: "linked h a xs b \<Longrightarrow> b \<notin> set xs"
  by (induction xs arbitrary: a) (auto split: option.splits)

lemma deref_release:
  "deref h e = Some r \<Longrightarrow>
   deref (release h e r) a = (if a = e then Some (r\<lparr>lock := False\<rparr>) else deref h a)"
  by (auto simp: deref_def release_def split: if_splits)

lemma lock_chain_release:
  "deref h e = Some r \<Longrightarrow> lock_chain (release h e r) a xs s = lock_chain h a xs s"
proof (induction xs arbitrary: a)
  case Nil
  then show ?case by simp
next
  case (Cons x xs)
  then show ?case by (auto simp: deref_release split: option.splits)
qed

lemma lock_chain_bounds: "lock_chain h a xs s \<Longrightarrow> 0 \<notin> set xs \<and> s \<notin> set xs"
  by (induction xs arbitrary: a) (auto split: option.splits)

lemma lock_chain_unique:
  "lock_chain h a xs s \<Longrightarrow> lock_chain h a ys s \<Longrightarrow> xs = ys"
proof (induction xs arbitrary: a ys)
  case Nil
  then show ?case by (cases ys) auto
next
  case (Cons x xs)
  then show ?case by (cases ys) (auto split: option.splits)
qed

lemma lock_chain_suffix:
  "lock_chain h a (us @ x # vs) s \<Longrightarrow> lock_chain h x (x # vs) s"
proof (induction us arbitrary: a)
  case Nil
  then show ?case by simp
next
  case (Cons u us)
  then show ?case by (cases us) (auto split: option.splits)
qed

lemma lock_chain_distinct: "lock_chain h a xs s \<Longrightarrow> distinct xs"
proof (induction xs arbitrary: a)
  case Nil
  then show ?case by simp
next
  case (Cons x xs)
  from Cons.prems obtain r where r: "a = x" "deref h x = Some r"
    "lock_chain h (markptr_ptr_load (nexts r 0)) xs s"
    by (auto split: option.splits)
  have "x \<notin> set xs"
  proof
    assume "x \<in> set xs"
    then obtain us vs where uv: "xs = us @ x # vs" by (auto simp: in_set_conv_decomp)
    with r(3) have "lock_chain h x (x # vs) s" by (auto dest: lock_chain_suffix)
    moreover from Cons.prems r(1) have "lock_chain h x (x # xs) s" by simp
    ultimately have "x # vs = x # xs" by (rule lock_chain_unique)
    with uv show False by simp
  qed
  with Cons.IH [OF r(3)] show ?case by simp
qed

lemma release_loop_chain:
  "lock_chain h a xs s \<Longrightarrow>
   release_loop h s a tr = Some (Inr (unlocked h xs, tr @ release_events xs))"
proof (induction xs arbitrary: h a tr)
  case Nil
  then show ?case
    by (subst release_loop.simps) (auto simp: unlocked_def release_events_def)
next
  case (Cons x xs)
  from Cons.prems obtain r where r: "a = x" "x \<noteq> 0" "x \<noteq> s" "deref h x = Some r"
    "lock_chain h (markptr_ptr_load (nexts r 0)) xs s"
    by (auto split: option.splits)
  from Cons.prems have d: "distinct (x # xs)" by (rule lock_chain_distinct)
  from r(4,5) have "lock_chain (release h x r) (markptr_ptr_load (nexts r 0)) xs s"
    by (simp add: lock_chain_release)
  from Cons.IH [OF this, of "tr @ [Read_next x, Release x]"]
  have "release_loop (release h x r) s (markptr_ptr_load (nexts r 0)) (tr @ [Read_next x, Release x])
        = Some (Inr (unlocked (release h x r) xs, tr @ release_events (x # xs)))"
    by (simp add: release_events_def)
  moreover have "unlocked (release h x r) xs = unlocked h (x # xs)"
    using d r(2,4) by (auto simp: unlocked_def release_def deref_def fun_eq_iff)
  ultimately show ?case using r(1-4)
    by (subst release_loop.simps) simp
qed

lemma count_release_events:
  "distinct xs \<Longrightarrow> count_list (release_events xs) (Release e) = (if e \<in> set xs then 1 else 0)"
  by (induction xs) (auto simp: release_events_def)

lemma count_read_events:
  "distinct xs \<Longrightarrow> count_list (release_events xs) (Read_next e) = (if e \<in> set xs then 1 else 0)"
  by (induction xs) (auto simp: release_events_def)


lemma ptr_load_examples:
  "markptr_ptr_load 0x2000 = 0x2000" "markptr_ptr_load 0x3001 = 0x3000"
  "markptr_ptr_load 0x4000 = 0x4000" "markptr_ptr_load 0 = 0"
  by (simp_all add: markptr_ptr_load_def)

lemma example_lock_chain:
  "lock_chain example_heap 0x1000 [0x1000, 0x2000, 0x3000] 0x4000"
  by (simp add: example_heap_def deref_def node_def ptr_load_examples)

lemma example_linked_all:
  "linked example_heap 0x2000 [0x2000, 0x3000, 0x4000] 0"
  by (simp add: example_heap_def deref_def node_def ptr_load_examples)

lemma example_linked_window:
  "linked example_heap 0x2000 [0x2000, 0x3000] 0x4000"
  by (simp add: example_heap_def deref_def node_def ptr_load_examples)


text \<open>
  C2. Destroying a handle that has not been moved from releases the lock of
  \<^verbatim>\<open>prev_\<close> and of every node after it on the level-0 chain, predecessor first, each
  node's \<^verbatim>\<open>next[0]\<close> being read before its lock is released; the loop stops at the
  first arrival at \<^verbatim>\<open>succ_\<close> or at null, so neither is among the released nodes.
\<close>

theorem dtor_releases_chain:
  assumes "\<not> cl_moved cl" and "lock_chain h (cl_prev cl) xs (cl_succ cl)"
  shows "crange_locked_dtor h cl = Some (Inr (unlocked h xs, release_events xs)) \<and>
         0 \<notin> set xs \<and> cl_succ cl \<notin> set xs \<and> distinct xs \<and>
         (cl_prev cl \<noteq> 0 \<and> cl_prev cl \<noteq> cl_succ cl \<longrightarrow> xs \<noteq> [] \<and> hd xs = cl_prev cl)"
proof -
  from assms have "crange_locked_dtor h cl = Some (Inr (unlocked h xs, release_events xs))"
    by (simp add: crange_locked_dtor_def release_loop_chain)
  moreover from assms(2) have "0 \<notin> set xs \<and> cl_succ cl \<notin> set xs" by (rule lock_chain_bounds)
  moreover from assms(2) have "distinct xs" by (rule lock_chain_distinct)
  moreover from assms(2) have "cl_prev cl \<noteq> 0 \<and> cl_prev cl \<noteq> cl_succ cl \<longrightarrow> xs \<noteq> [] \<and> hd xs = cl_prev cl"
    by (cases xs) auto
  ultimately show ?thesis by blast
qed

theorem dtor_releases_chain_witness:
  "\<not> cl_moved example_window \<and>
   lock_chain example_heap (cl_prev example_window) [0x1000, 0x2000, 0x3000] (cl_succ example_window) \<and>
   crange_locked_dtor example_heap example_window =
     Some (Inr (unlocked example_heap [0x1000, 0x2000, 0x3000],
       [Read_next 0x1000, Release 0x1000, Read_next 0x2000, Release 0x2000,
        Read_next 0x3000, Release 0x3000]))"
proof -
  have m: "\<not> cl_moved example_window" by (simp add: example_window_def)
  have c: "lock_chain example_heap (cl_prev example_window) [0x1000, 0x2000, 0x3000] (cl_succ example_window)"
    using example_lock_chain by (simp add: example_window_def)
  from dtor_releases_chain [OF m c] m c show ?thesis
    by (simp add: release_events_def)
qed


text \<open>
  C6. Incrementing an iterator replaces the current node by its \<^verbatim>\<open>next[0].ptr()\<close>;
  \<^verbatim>\<open>begin()\<close> of a collection is the level-0 successor of the head and \<^verbatim>\<open>end()\<close> is
  null; the traversal from one to the other visits every node linked at level 0 in
  order. The chain is followed through the pointer component alone, so a node whose
  level-0 mark is set is visited like any other.
\<close>

theorem crange_iteration_visits_all:
  assumes "deref h (crange_head cr) = Some hd_node"
    and "linked h (markptr_ptr_load (nexts hd_node 0)) ns (crange_end cr)"
  shows "crange_begin h cr = Inr (markptr_ptr_load (nexts hd_node 0)) \<and>
         crange_end cr = 0 \<and>
         traverse h (markptr_ptr_load (nexts hd_node 0)) (crange_end cr) [] = Some (Inr ns) \<and>
         (\<forall>n r. deref h n = Some r \<longrightarrow> range_iterator_incr h n = Inr (markptr_ptr_load (nexts r 0)))"
  using assms traverse_linked [OF assms(2), of "[]"]
  by (simp add: crange_begin_def crange_end_def range_iterator_incr_def)

theorem crange_iteration_visits_all_witness:
  "deref example_heap (crange_head example_crange) = Some (node 0 0 0x2000 True) \<and>
   linked example_heap (markptr_ptr_load (nexts (node 0 0 0x2000 True) 0)) [0x2000, 0x3000, 0x4000]
     (crange_end example_crange) \<and>
   deref example_heap 0x2000 = Some (node 10 5 0x3001 True) \<and>
   deleted (node 10 5 0x3001 True) \<and>
   crange_begin example_heap example_crange = Inr 0x2000 \<and>
   traverse example_heap 0x2000 (crange_end example_crange) [] = Some (Inr [0x2000, 0x3000, 0x4000]) \<and>
   range_iterator_incr example_heap 0x2000 = Inr 0x3000"
proof -
  have d: "deref example_heap (crange_head example_crange) = Some (node 0 0 0x2000 True)"
    by (simp add: example_heap_def example_crange_def deref_def)
  have l: "linked example_heap (markptr_ptr_load (nexts (node 0 0 0x2000 True) 0)) [0x2000, 0x3000, 0x4000]
     (crange_end example_crange)"
    using example_linked_all by (simp add: node_def ptr_load_examples crange_end_def)
  have d2: "deref example_heap 0x2000 = Some (node 10 5 0x3001 True)"
    by (simp add: example_heap_def deref_def)
  have m: "deleted (node 10 5 0x3001 True)"
    by (simp add: deleted_def node_def markptr_mark_load_def)
  from crange_iteration_visits_all [OF d l] d l d2 m show ?thesis
    by (simp add: node_def ptr_load_examples crange_end_def)
qed


text \<open>
  C7. For a locked window whose nodes \<open>ws\<close> are linked at level 0 from
  \<^verbatim>\<open>prev_->next[0].ptr()\<close> to \<^verbatim>\<open>succ_\<close> (so that \<^verbatim>\<open>prev_->next[0].ptr()\<close> is the first
  window node, or \<^verbatim>\<open>succ_\<close> when the window is empty, and the last window node's
  \<^verbatim>\<open>next[0].ptr()\<close> is \<^verbatim>\<open>succ_\<close>), \<^verbatim>\<open>begin()\<close> is \<^verbatim>\<open>prev_->next[0].ptr()\<close>, \<^verbatim>\<open>end()\<close> is
  \<^verbatim>\<open>succ_\<close>, and the traversal from one to the other visits exactly the window nodes.
\<close>

theorem window_iteration:
  assumes "deref h (cl_prev cl) = Some p"
    and "linked h (markptr_ptr_load (nexts p 0)) ws (cl_succ cl)"
  shows "crange_locked_begin h cl = Inr (markptr_ptr_load (nexts p 0)) \<and>
         crange_locked_end cl = cl_succ cl \<and>
         traverse h (markptr_ptr_load (nexts p 0)) (crange_locked_end cl) [] = Some (Inr ws) \<and>
         (ws = [] \<longrightarrow> markptr_ptr_load (nexts p 0) = cl_succ cl) \<and>
         (ws \<noteq> [] \<longrightarrow> markptr_ptr_load (nexts p 0) = hd ws \<and>
            (\<exists>r. deref h (last ws) = Some r \<and> markptr_ptr_load (nexts r 0) = cl_succ cl))"
  using assms traverse_linked [OF assms(2), of "[]"] linked_ends [OF assms(2)]
  by (simp add: crange_locked_begin_def crange_locked_end_def)

theorem window_iteration_witness:
  "deref example_heap (cl_prev example_window) = Some (node 0 0 0x2000 True) \<and>
   linked example_heap (markptr_ptr_load (nexts (node 0 0 0x2000 True) 0)) [0x2000, 0x3000]
     (cl_succ example_window) \<and>
   crange_locked_begin example_heap example_window = Inr 0x2000 \<and>
   crange_locked_end example_window = 0x4000 \<and>
   traverse example_heap 0x2000 (crange_locked_end example_window) [] = Some (Inr [0x2000, 0x3000])"
proof -
  have d: "deref example_heap (cl_prev example_window) = Some (node 0 0 0x2000 True)"
    by (simp add: example_heap_def example_window_def deref_def)
  have l: "linked example_heap (markptr_ptr_load (nexts (node 0 0 0x2000 True) 0)) [0x2000, 0x3000]
     (cl_succ example_window)"
    using example_linked_window by (simp add: node_def ptr_load_examples example_window_def)
  have s: "cl_succ example_window = 0x4000" by (simp add: example_window_def)
  from window_iteration [OF d l] d l s show ?thesis
    by (simp add: node_def ptr_load_examples crange_locked_end_def)
qed


lemma move_owner:
  "\<not> cl_moved x \<Longrightarrow> crange_locked_move x = (x, x\<lparr>cl_moved := True\<rparr>)"
  by (cases x) (simp add: crange_locked_move_def)

lemma move_flags:
  "cl_moved (snd (crange_locked_move x)) \<and> \<not> cl_moved (fst (crange_locked_move x))"
  by (simp add: crange_locked_move_def)

lemma move_chain_owner:
  "\<not> cl_moved x \<Longrightarrow> move_chain n x = (replicate n (x\<lparr>cl_moved := True\<rparr>), x)"
  by (induction n) (simp_all add: move_owner replicate_app_Cons_same)

lemma dtor_moved: "cl_moved m \<Longrightarrow> crange_locked_dtor h m = Some (Inr (h, []))"
  by (simp add: crange_locked_dtor_def)

lemma dtor_all_moved: "\<forall>m\<in>set ms. cl_moved m \<Longrightarrow> dtor_all h ms tr = Some (Inr (h, tr))"
  by (induction ms) (simp_all add: dtor_moved)

lemma dtor_all_moved_prefix:
  "\<forall>m\<in>set ms. cl_moved m \<Longrightarrow> dtor_all h (ms @ cs) tr = dtor_all h cs tr"
  by (induction ms) (simp_all add: dtor_moved)

lemma dtor_owner:
  "\<not> cl_moved z \<Longrightarrow> lock_chain h (cl_prev z) xs (cl_succ z) \<Longrightarrow>
   crange_locked_dtor h z = Some (Inr (unlocked h xs, release_events xs))"
  by (simp add: crange_locked_dtor_def release_loop_chain)

lemma deref_unlocked:
  "deref (unlocked h xs) a =
     (if a \<in> set xs then map_option (\<lambda>r. r\<lparr>lock := False\<rparr>) (deref h a) else deref h a)"
  by (simp add: deref_def unlocked_def)

lemma lock_chain_unlocked:
  "lock_chain (unlocked h xs) a ys s = lock_chain h a ys s"
proof (induction ys arbitrary: a)
  case Nil
  then show ?case by simp
next
  case (Cons y ys)
  then show ?case by (cases "deref h y") (simp_all add: deref_unlocked)
qed

lemma unlocked_idem: "unlocked (unlocked h xs) xs = unlocked h xs"
  by (auto simp: unlocked_def fun_eq_iff option.map_comp comp_def)

text \<open>
  C9. Along a chain of move constructions that starts at a handle owning its window
  (one that has not been moved from) and takes each move from the handle produced
  last, every source is left with its moved flag set, its destructor releases no lock
  and leaves every store unchanged, and the handle produced last is the one non-moved
  owner. Destroying all of these handles, the owner at any position among them,
  releases each lock of the window exactly once. The move constructor does not look
  at the moved flag of its source: moving from a handle that has already been moved
  from is outside this statement.
\<close>

theorem move_chain_releases_once:
  assumes "\<not> cl_moved x" and "lock_chain h (cl_prev x) xs (cl_succ x)"
    and "move_chain n x = (ms, z)" and "set hs1 \<union> set hs2 \<subseteq> set ms"
  shows "length ms = n \<and>
         (\<forall>m\<in>set ms. cl_moved m \<and> (\<forall>h0. crange_locked_dtor h0 m = Some (Inr (h0, [])))) \<and>
         \<not> cl_moved z \<and>
         crange_locked_dtor h z = Some (Inr (unlocked h xs, release_events xs)) \<and>
         dtor_all h (hs1 @ z # hs2) [] = Some (Inr (unlocked h xs, release_events xs)) \<and>
         (\<forall>e. count_list (release_events xs) (Release e) = (if e \<in> set xs then 1 else 0))"
proof -
  from move_chain_owner [OF assms(1), of n] assms(3)
  have ms: "ms = replicate n (x\<lparr>cl_moved := True\<rparr>)" and z: "z = x"
    by auto
  from ms have mv: "\<forall>m\<in>set ms. cl_moved m" by simp
  with assms(4) have m1: "\<forall>m\<in>set hs1. cl_moved m" and m2: "\<forall>m\<in>set hs2. cl_moved m"
    by auto
  from z assms(1,2) have d: "crange_locked_dtor h z = Some (Inr (unlocked h xs, release_events xs))"
    by (simp add: dtor_owner)
  from m1 have "dtor_all h (hs1 @ z # hs2) [] = dtor_all h (z # hs2) []"
    by (rule dtor_all_moved_prefix)
  also from d m2 have "\<dots> = Some (Inr (unlocked h xs, release_events xs))"
    by (simp add: dtor_all_moved)
  finally have a: "dtor_all h (hs1 @ z # hs2) [] = Some (Inr (unlocked h xs, release_events xs))" .
  from assms(2) have "distinct xs" by (rule lock_chain_distinct)
  then have c: "\<forall>e. count_list (release_events xs) (Release e) = (if e \<in> set xs then 1 else 0)"
    by (simp add: count_release_events)
  from ms mv z assms(1) d a c show ?thesis by (simp add: dtor_moved)
qed

theorem move_chain_releases_once_witness:
  "\<not> cl_moved example_window \<and>
   lock_chain example_heap (cl_prev example_window) [0x1000, 0x2000, 0x3000] (cl_succ example_window) \<and>
   move_chain 2 example_window =
     ([example_window\<lparr>cl_moved := True\<rparr>, example_window\<lparr>cl_moved := True\<rparr>], example_window) \<and>
   dtor_all example_heap
     [example_window\<lparr>cl_moved := True\<rparr>, example_window, example_window\<lparr>cl_moved := True\<rparr>] [] =
     Some (Inr (unlocked example_heap [0x1000, 0x2000, 0x3000],
       release_events [0x1000, 0x2000, 0x3000])) \<and>
   count_list (release_events [0x1000, 0x2000, 0x3000]) (Release 0x2000) = 1"
proof -
  have m: "\<not> cl_moved example_window" by (simp add: example_window_def)
  have c: "lock_chain example_heap (cl_prev example_window) [0x1000, 0x2000, 0x3000] (cl_succ example_window)"
    using example_lock_chain by (simp add: example_window_def)
  have v: "move_chain 2 example_window =
     ([example_window\<lparr>cl_moved := True\<rparr>, example_window\<lparr>cl_moved := True\<rparr>], example_window)"
    using move_chain_owner [OF m, of 2] by (simp add: numeral_2_eq_2)
  have s: "set [example_window\<lparr>cl_moved := True\<rparr>] \<union> set [example_window\<lparr>cl_moved := True\<rparr>]
     \<subseteq> set [example_window\<lparr>cl_moved := True\<rparr>, example_window\<lparr>cl_moved := True\<rparr>]"
    by simp
  from move_chain_releases_once [OF m c v s] m c v show ?thesis
    by simp
qed

text \<open>
  Without the restriction to sources that own the window, the locks are not released
  exactly once. The move constructor sets \<^verbatim>\<open>moved_(false)\<close> in the new handle whatever
  the flag of the source is. Moving twice from the same handle gives two handles that
  are not moved from, and destroying them runs the release loop twice: the lock of
  the node at \<open>0x2000\<close> is released two times.
\<close>

theorem double_move_counterexample:
  "cl_moved (snd (crange_locked_move example_window)) \<and>
   \<not> cl_moved (fst (crange_locked_move example_window)) \<and>
   \<not> cl_moved (fst (crange_locked_move (snd (crange_locked_move example_window)))) \<and>
   dtor_all example_heap
     [fst (crange_locked_move example_window),
      fst (crange_locked_move (snd (crange_locked_move example_window))),
      snd (crange_locked_move (snd (crange_locked_move example_window)))] [] =
     Some (Inr (unlocked example_heap [0x1000, 0x2000, 0x3000],
       release_events [0x1000, 0x2000, 0x3000] @ release_events [0x1000, 0x2000, 0x3000])) \<and>
   count_list (release_events [0x1000, 0x2000, 0x3000] @ release_events [0x1000, 0x2000, 0x3000])
     (Release 0x2000) = 2"
proof -
  let ?xs = "[0x1000, 0x2000, 0x3000] :: uptr list"
  have m: "\<not> cl_moved example_window" by (simp add: example_window_def)
  have y: "fst (crange_locked_move example_window) = example_window"
    using move_owner [OF m] by simp
  have x': "snd (crange_locked_move example_window) = example_window\<lparr>cl_moved := True\<rparr>"
    using move_owner [OF m] by simp
  have z: "fst (crange_locked_move (example_window\<lparr>cl_moved := True\<rparr>)) = example_window"
    by (simp add: crange_locked_move_def example_window_def)
  have x'': "snd (crange_locked_move (example_window\<lparr>cl_moved := True\<rparr>)) = example_window\<lparr>cl_moved := True\<rparr>"
    by (simp add: crange_locked_move_def)
  have c: "lock_chain example_heap (cl_prev example_window) ?xs (cl_succ example_window)"
    using example_lock_chain by (simp add: example_window_def)
  then have c2: "lock_chain (unlocked example_heap ?xs) (cl_prev example_window) ?xs (cl_succ example_window)"
    by (simp only: lock_chain_unlocked)
  have d1: "crange_locked_dtor example_heap example_window =
      Some (Inr (unlocked example_heap ?xs, release_events ?xs))"
    using m c by (rule dtor_owner)
  have d2: "crange_locked_dtor (unlocked example_heap ?xs) example_window =
      Some (Inr (unlocked example_heap ?xs, release_events ?xs))"
    using dtor_owner [OF m c2] by (simp only: unlocked_idem)
  have d3: "crange_locked_dtor (unlocked example_heap ?xs) (example_window\<lparr>cl_moved := True\<rparr>) =
      Some (Inr (unlocked example_heap ?xs, []))"
    by (simp add: dtor_moved)
  have n: "count_list (release_events ?xs @ release_events ?xs) (Release 0x2000) = 2"
    by (simp add: release_events_def)
  from m d1 d2 d3 n show ?thesis
    unfolding y x' z x'' by simp
qed


section \<open>Properties of the user work queues\<close>

declare uwq_trywork_loop.simps [simp del]
declare tryworker_loop.simps [simp del]
declare haswork_loop.simps [simp del]

lemma tryworker_loop_Inl:
  "tryworker_loop n worker ws i slot = Inl w \<Longrightarrow>
     \<exists>m. i \<le> m \<and> m < n \<and> worker m = Some w \<and> \<not> w_running (ws w)"
proof (induction n worker ws i slot rule: tryworker_loop.induct)
  case (1 n worker ws i slot)
  show ?case
  proof (cases "i < n")
    case False
    with "1.prems" show ?thesis by (simp add: tryworker_loop.simps)
  next
    case True
    show ?thesis
    proof (cases "worker i")
      case None
      with True "1.prems" have "tryworker_loop n worker ws (Suc i) (if slot = -1 then int i else slot) = Inl w"
        by (simp add: tryworker_loop.simps [of n worker ws i])
      from "1.IH"(1) [OF True None this] show ?thesis by (auto intro: Suc_leD)
    next
      case (Some v)
      show ?thesis
      proof (cases "w_running (ws v)")
        case r: True
        with True Some "1.prems" have "tryworker_loop n worker ws (Suc i) slot = Inl w"
          by (simp add: tryworker_loop.simps [of n worker ws i])
        from "1.IH"(2) [OF True Some r this] show ?thesis by (auto intro: Suc_leD)
      next
        case r: False
        with True Some "1.prems" have "v = w"
          by (simp add: tryworker_loop.simps [of n worker ws i])
        with True Some r show ?thesis by auto
      qed
    qed
  qed
qed

lemma tryworker_loop_Inr:
  "tryworker_loop n worker ws i slot = Inr s \<Longrightarrow> s \<noteq> -1 \<Longrightarrow>
     s = slot \<or> (0 \<le> s \<and> i \<le> nat s \<and> nat s < n \<and> worker (nat s) = None)"
proof (induction n worker ws i slot rule: tryworker_loop.induct)
  case (1 n worker ws i slot)
  show ?case
  proof (cases "i < n")
    case False
    with "1.prems" show ?thesis by (simp add: tryworker_loop.simps)
  next
    case True
    show ?thesis
    proof (cases "worker i")
      case None
      with True "1.prems" have "tryworker_loop n worker ws (Suc i) (if slot = -1 then int i else slot) = Inr s"
        by (simp add: tryworker_loop.simps [of n worker ws i])
      from "1.IH"(1) [OF True None this "1.prems"(2)] True None show ?thesis
        by (auto split: if_splits)
    next
      case (Some v)
      show ?thesis
      proof (cases "w_running (ws v)")
        case r: True
        with True Some "1.prems" have "tryworker_loop n worker ws (Suc i) slot = Inr s"
          by (simp add: tryworker_loop.simps [of n worker ws i])
        from "1.IH"(2) [OF True Some r this "1.prems"(2)] show ?thesis by auto
      next
        case r: False
        with True Some "1.prems" show ?thesis
          by (simp add: tryworker_loop.simps [of n worker ws i])
      qed
    qed
  qed
qed

lemma allocworker_Some:
  "allocworker cfg en k up = (Some p, k1) \<Longrightarrow>
     proc_alloc en = Some p \<and> u_uentry (uwqs k up) \<noteq> 0 \<and> vmnode_new en \<and> 0 \<le> vmap_insert en \<and>
     workers k1 = workers k \<and> procs k1 = procs k \<and> cpus k1 = cpus k \<and>
     u_worker (uwqs k1 up) = u_worker (uwqs k up)"
  by (auto simp: allocworker_def Let_def split: if_splits option.splits)

lemma allocworker_None:
  "allocworker cfg en k up = (None, k1) \<Longrightarrow> k1 = k"
  by (auto simp: allocworker_def Let_def split: if_splits option.splits)


lemma tryworker_body_cases:
  assumes "tryworker_body cfg en k up = (r, k', evs)"
  shows "(\<not> u_valid (uwqs k up) \<and> r = Returns (Literal False) \<and> k' = k \<and> evs = []) \<or>
         (\<exists>w. tryworker_loop (NWORKERS cfg) (u_worker (uwqs k up)) (workers k) 0 (-1) = Inl w \<and>
              r = Returns (Literal True) \<and> evs = [Cv_wakeup w] \<and> w_running (workers k' w)) \<or>
         (\<exists>s. tryworker_loop (NWORKERS cfg) (u_worker (uwqs k up)) (workers k) 0 (-1) = Inr s \<and>
              (s = -1 \<or> fst (allocworker cfg en k up) = None) \<and>
              r = Returns Nullptr \<and> k' = k \<and> evs = []) \<or>
         (\<exists>s p k1. tryworker_loop (NWORKERS cfg) (u_worker (uwqs k up)) (workers k) 0 (-1) = Inr s \<and>
              s \<noteq> -1 \<and> allocworker cfg en k up = (Some p, k1) \<and> worker_new en = None \<and>
              r = Panics \<and> evs = []) \<or>
         (\<exists>s p k1 w. tryworker_loop (NWORKERS cfg) (u_worker (uwqs k up)) (workers k) 0 (-1) = Inr s \<and>
              s \<noteq> -1 \<and> allocworker cfg en k up = (Some p, k1) \<and> worker_new en = Some w \<and>
              r = Returns (Literal True) \<and> evs = [Addrun p] \<and>
              u_worker (uwqs k' up) (nat s) = Some w)"
  using assms
  by (auto simp: tryworker_body_def Let_def split: if_splits sum.splits option.splits prod.splits
      dest: allocworker_None)


text \<open>
  C8. The contract of \<^verbatim>\<open>uwq::tryworker\<close> is boolean. Whenever it returns, the value
  its caller receives is \<^verbatim>\<open>true\<close> exactly when the call woke an idle worker of the
  queue (\<^verbatim>\<open>cv_wakeup\<close>) or allocated a new worker and put its process on the run queue
  (\<^verbatim>\<open>addrun\<close>); on every other returning path the value is \<^verbatim>\<open>false\<close>, nothing was
  woken or enqueued and the modelled state is unchanged. The final \<^verbatim>\<open>return nullptr\<close>
  is such a path: the caller receives \<^verbatim>\<open>false\<close>. The one path that does not return is
  the failed \<^verbatim>\<open>assert(w != nullptr)\<close>.
\<close>

theorem tryworker_strictly_boolean:
  assumes "tryworker_body cfg en k up = (Returns e, k', evs)"
  shows "bool_of_operand e = wakes_or_enqueues evs \<and>
         tryworker cfg en k up = (Returns (bool_of_operand e), k', evs) \<and>
         (e = Nullptr \<longrightarrow> tryworker cfg en k up = (Returns False, k', evs)) \<and>
         (\<not> bool_of_operand e \<longrightarrow> evs = [] \<and> k' = k) \<and>
         (\<forall>w. Cv_wakeup w \<in> set evs \<longrightarrow>
              (\<exists>m<NWORKERS cfg. u_worker (uwqs k up) m = Some w) \<and>
              \<not> w_running (workers k w) \<and> w_running (workers k' w)) \<and>
         (\<forall>p. Addrun p \<in> set evs \<longrightarrow>
              proc_alloc en = Some p \<and>
              (\<exists>m<NWORKERS cfg. u_worker (uwqs k up) m = None \<and>
                   u_worker (uwqs k' up) m = worker_new en))"
proof -
  have conv: "tryworker cfg en k up = (Returns (bool_of_operand e), k', evs)"
    using assms by (simp add: tryworker_def)
  from tryworker_body_cases [OF assms]
  consider
    (invalid) "e = Literal False" "k' = k" "evs = []"
  | (wake) w where "tryworker_loop (NWORKERS cfg) (u_worker (uwqs k up)) (workers k) 0 (-1) = Inl w"
      "e = Literal True" "evs = [Cv_wakeup w]" "w_running (workers k' w)"
  | (fail) "e = Nullptr" "k' = k" "evs = []"
  | (new) s p k1 w where "tryworker_loop (NWORKERS cfg) (u_worker (uwqs k up)) (workers k) 0 (-1) = Inr s"
      "s \<noteq> -1" "allocworker cfg en k up = (Some p, k1)" "worker_new en = Some w"
      "e = Literal True" "evs = [Addrun p]" "u_worker (uwqs k' up) (nat s) = Some w"
    by auto
  then show ?thesis
  proof cases
    case invalid
    with conv show ?thesis by (simp add: bool_of_operand_def)
  next
    case wake
    from tryworker_loop_Inl [OF wake(1)] wake(2-4) conv show ?thesis
      by (auto simp: bool_of_operand_def)
  next
    case fail
    with conv show ?thesis by (simp add: bool_of_operand_def)
  next
    case new
    from tryworker_loop_Inr [OF new(1,2)] new(2)
    have "nat s < NWORKERS cfg \<and> u_worker (uwqs k up) (nat s) = None" by auto
    with allocworker_Some [OF new(3)] new(4-7) conv show ?thesis
      by (auto simp: bool_of_operand_def)
  qed
qed

lemma tryworker_events:
  assumes "tryworker cfg en k up = (r, k', evs)"
  shows "tryworker_calls evs = [] \<and> examined evs = [] \<and> guard_counts evs = []"
proof -
  obtain r0 where "tryworker_body cfg en k up = (r0, k', evs)"
    using assms by (auto simp: tryworker_def split: prod.splits outcome.splits)
  from tryworker_body_cases [OF this] show ?thesis by auto
qed

lemma tryworker_False:
  assumes "tryworker cfg en k up = (Returns False, k', evs)"
  shows "evs = [] \<and> k' = k"
proof -
  obtain e where b: "tryworker_body cfg en k up = (Returns e, k', evs)" and e: "\<not> bool_of_operand e"
    using assms by (auto simp: tryworker_def split: prod.splits outcome.splits)
  from tryworker_body_cases [OF b] e show ?thesis by (auto simp: bool_of_operand_def)
qed


lemma probe_unat: "probe cfg k (unat i) = unat ((i + k) mod NCPU cfg)"
  by (simp add: probe_def)

lemma guards_after_xgc: "guards_after xgc_statement g = g"
  by (simp add: guards_after_def xgc_statement_def)

lemma loop_skip_self:
  assumes "i < NCPU cfg" and "probe cfg k (unat i) = mycpuid en"
  shows "uwq_trywork_loop cfg en kern g k i tr = uwq_trywork_loop cfg en kern g k (i + 1) tr"
  using assms by (subst uwq_trywork_loop.simps) (simp add: probe_unat Let_def)

lemma loop_skip_nouwq:
  assumes "i < NCPU cfg" and "probe cfg k (unat i) \<noteq> mycpuid en"
    and "uwq_at kern (probe cfg k (unat i)) = None"
  shows "uwq_trywork_loop cfg en kern g k i tr =
         uwq_trywork_loop cfg en kern g k (i + 1) (tr @ [Read_proc (probe cfg k (unat i)) g])"
proof (cases "cpus kern (probe cfg k (unat i))")
  case None
  with assms(1,2) show ?thesis
    by (subst uwq_trywork_loop.simps) (simp add: probe_unat Let_def guards_after_xgc)
next
  case (Some p)
  with assms(3) have "p_uwq (procs kern p) = None" by (simp add: uwq_at_def)
  with Some assms(1,2) show ?thesis
    by (subst uwq_trywork_loop.simps) (simp add: probe_unat Let_def guards_after_xgc)
qed

lemma uwq_at_Some:
  "uwq_at kern j = Some up \<Longrightarrow> \<exists>p. cpus kern j = Some p \<and> p_uwq (procs kern p) = Some up"
  by (auto simp: uwq_at_def split: option.splits)

lemma loop_skip_nowork:
  assumes "i < NCPU cfg" and "probe cfg k (unat i) \<noteq> mycpuid en"
    and "uwq_at kern (probe cfg k (unat i)) = Some up" and "\<not> haswork cfg (uwqs kern up)"
  shows "uwq_trywork_loop cfg en kern g k i tr =
         uwq_trywork_loop cfg en kern g k (i + 1)
           (tr @ [Read_proc (probe cfg k (unat i)) g, Call_haswork (probe cfg k (unat i)) g])"
proof -
  from uwq_at_Some [OF assms(3)] obtain p where
    "cpus kern (probe cfg k (unat i)) = Some p" "p_uwq (procs kern p) = Some up" by blast
  with assms(1,2,4) show ?thesis
    by (subst uwq_trywork_loop.simps) (simp add: probe_unat Let_def guards_after_xgc)
qed

lemma loop_victim:
  assumes "i < NCPU cfg" and "probe cfg k (unat i) \<noteq> mycpuid en"
    and "uwq_at kern (probe cfg k (unat i)) = Some up" and "haswork cfg (uwqs kern up)"
    and "tryworker cfg en kern up = (r, kern', evs)"
  shows "uwq_trywork_loop cfg en kern g k i tr =
         (r, kern', tr @ [Read_proc (probe cfg k (unat i)) g, Call_haswork (probe cfg k (unat i)) g] @
            Call_tryworker (probe cfg k (unat i)) g # evs)"
proof -
  from uwq_at_Some [OF assms(3)] obtain p where
    "cpus kern (probe cfg k (unat i)) = Some p" "p_uwq (procs kern p) = Some up" by blast
  with assms(1,2,4,5) show ?thesis
    by (subst uwq_trywork_loop.simps)
      (simp add: probe_unat Let_def guards_after_xgc split: outcome.splits)
qed

lemma unat_succ_below: "i < (n :: u64) \<Longrightarrow> unat (i + 1) = Suc (unat i)"
  by unat_arith

lemma word_less_unat: "(i < (n :: u64)) = (unat i < unat n)"
  by (simp add: word_less_nat_alt)

lemma loop_spec:
  "\<exists>pre. tryworker_calls pre = [] \<and> mycpuid en \<notin> set (examined pre) \<and>
         set (guard_counts pre) \<subseteq> {g} \<and>
     (case find (victim cfg en kern) (map (probe cfg k) [unat i..<unat (NCPU cfg)]) of
        None \<Rightarrow> uwq_trywork_loop cfg en kern g k i tr = (Returns False, kern, tr @ pre)
      | Some j \<Rightarrow>
          (\<exists>up r kern' evs. uwq_at kern j = Some up \<and>
             tryworker cfg en kern up = (r, kern', evs) \<and>
             uwq_trywork_loop cfg en kern g k i tr =
               (r, kern', tr @ pre @ Call_tryworker j g # evs)))"
proof (induction "unat (NCPU cfg) - unat i" arbitrary: i tr)
  case 0
  then have "\<not> i < NCPU cfg" by (simp add: word_less_unat)
  then have "uwq_trywork_loop cfg en kern g k i tr = (Returns False, kern, tr)"
    by (subst uwq_trywork_loop.simps) simp
  moreover from 0 have "find (victim cfg en kern) (map (probe cfg k) [unat i..<unat (NCPU cfg)]) = None"
    by simp
  ultimately show ?case by (intro exI [of _ "[]"]) (simp only: option.case, simp)
next
  case (Suc n)
  then have lt: "i < NCPU cfg" by (simp add: word_less_unat)
  then have su: "unat (i + 1) = Suc (unat i)" by (rule unat_succ_below)
  with Suc have n: "n = unat (NCPU cfg) - unat (i + 1)" by simp
  from lt have upt: "[unat i..<unat (NCPU cfg)] = unat i # [unat (i + 1)..<unat (NCPU cfg)]"
    by (simp add: su word_less_unat upt_conv_Cons)
  let ?j = "probe cfg k (unat i)"
  let ?rest = "find (victim cfg en kern) (map (probe cfg k) [unat (i + 1)..<unat (NCPU cfg)])"
  show ?case
  proof (cases "victim cfg en kern ?j")
    case True
    then obtain up where v: "?j \<noteq> mycpuid en" "uwq_at kern ?j = Some up" "haswork cfg (uwqs kern up)"
      by (auto simp: victim_def split: option.splits)
    obtain r kern' evs where tw: "tryworker cfg en kern up = (r, kern', evs)"
      by (cases "tryworker cfg en kern up") auto
    from loop_victim [OF lt v tw, of g tr] True v(1,2) tw upt show ?thesis
      by (intro exI [of _ "[Read_proc ?j g, Call_haswork ?j g]"]) simp
  next
    case False
    then have f: "find (victim cfg en kern) (map (probe cfg k) [unat i..<unat (NCPU cfg)]) = ?rest"
      by (simp add: upt)
    consider (self) "?j = mycpuid en"
      | (nouwq) "?j \<noteq> mycpuid en" "uwq_at kern ?j = None"
      | (nowork) up where "?j \<noteq> mycpuid en" "uwq_at kern ?j = Some up" "\<not> haswork cfg (uwqs kern up)"
      using False by (auto simp: victim_def split: option.splits)
    then show ?thesis
    proof cases
      case self
      from Suc.hyps(1) [OF n, of tr] obtain pre where
        "tryworker_calls pre = []" "mycpuid en \<notin> set (examined pre)" "set (guard_counts pre) \<subseteq> {g}"
        "(case ?rest of
            None \<Rightarrow> uwq_trywork_loop cfg en kern g k (i + 1) tr = (Returns False, kern, tr @ pre)
          | Some j \<Rightarrow>
              (\<exists>up r kern' evs. uwq_at kern j = Some up \<and>
                 tryworker cfg en kern up = (r, kern', evs) \<and>
                 uwq_trywork_loop cfg en kern g k (i + 1) tr =
                   (r, kern', tr @ pre @ Call_tryworker j g # evs)))"
        by blast
      then show ?thesis
        unfolding f loop_skip_self [OF lt self] by (intro exI [of _ pre]) simp
    next
      case nouwq
      let ?tr = "tr @ [Read_proc ?j g]"
      from Suc.hyps(1) [OF n, of ?tr] obtain pre where
        "tryworker_calls pre = []" "mycpuid en \<notin> set (examined pre)" "set (guard_counts pre) \<subseteq> {g}"
        "(case ?rest of
            None \<Rightarrow> uwq_trywork_loop cfg en kern g k (i + 1) ?tr = (Returns False, kern, ?tr @ pre)
          | Some j \<Rightarrow>
              (\<exists>up r kern' evs. uwq_at kern j = Some up \<and>
                 tryworker cfg en kern up = (r, kern', evs) \<and>
                 uwq_trywork_loop cfg en kern g k (i + 1) ?tr =
                   (r, kern', ?tr @ pre @ Call_tryworker j g # evs)))"
        by blast
      with nouwq(1) show ?thesis
        unfolding f loop_skip_nouwq [OF lt nouwq]
        by (intro exI [of _ "Read_proc ?j g # pre"]) (auto split: option.splits)
    next
      case nowork
      let ?tr = "tr @ [Read_proc ?j g, Call_haswork ?j g]"
      from Suc.hyps(1) [OF n, of ?tr] obtain pre where
        "tryworker_calls pre = []" "mycpuid en \<notin> set (examined pre)" "set (guard_counts pre) \<subseteq> {g}"
        "(case ?rest of
            None \<Rightarrow> uwq_trywork_loop cfg en kern g k (i + 1) ?tr = (Returns False, kern, ?tr @ pre)
          | Some j \<Rightarrow>
              (\<exists>up r kern' evs. uwq_at kern j = Some up \<and>
                 tryworker cfg en kern up = (r, kern', evs) \<and>
                 uwq_trywork_loop cfg en kern g k (i + 1) ?tr =
                   (r, kern', ?tr @ pre @ Call_tryworker j g # evs)))"
        by blast
      with nowork(1) show ?thesis
        unfolding f loop_skip_nowork [OF lt nowork]
        by (intro exI [of _ "Read_proc ?j g # Call_haswork ?j g # pre"]) (auto split: option.splits)
    qed
  qed
qed


lemma tryworker_calls_append: "tryworker_calls (a @ b) = tryworker_calls a @ tryworker_calls b"
  by (induction a rule: tryworker_calls.induct) simp_all

lemma examined_append: "examined (a @ b) = examined a @ examined b"
  by (induction a rule: examined.induct) simp_all

lemma guard_counts_append: "guard_counts (a @ b) = guard_counts a @ guard_counts b"
  by (induction a rule: guard_counts.induct) simp_all

lemma find_victim_other: "find (victim cfg en kern) xs = Some j \<Longrightarrow> j \<noteq> mycpuid en"
  by (auto simp: find_Some_iff victim_def)

lemma uwq_trywork_spec:
  "\<exists>pre. tryworker_calls pre = [] \<and> mycpuid en \<notin> set (examined pre) \<and>
         set (guard_counts pre) \<subseteq> {g} \<and>
     (case find (victim cfg en kern) (probe_order cfg (rdtsc en)) of
        None \<Rightarrow> uwq_trywork cfg en kern g = (Returns False, kern, pre)
      | Some j \<Rightarrow>
          (\<exists>up r kern' evs. uwq_at kern j = Some up \<and>
             tryworker cfg en kern up = (r, kern', evs) \<and>
             uwq_trywork cfg en kern g = (r, kern', pre @ Call_tryworker j g # evs)))"
proof -
  from loop_spec [of en g cfg kern "rdtsc en" 0 "[]"] obtain pre where
    "tryworker_calls pre = []" "mycpuid en \<notin> set (examined pre)" "set (guard_counts pre) \<subseteq> {g}"
    "(case find (victim cfg en kern) (map (probe cfg (rdtsc en)) [unat (0 :: u64)..<unat (NCPU cfg)]) of
        None \<Rightarrow> uwq_trywork_loop cfg en kern g (rdtsc en) 0 [] = (Returns False, kern, [] @ pre)
      | Some j \<Rightarrow>
          (\<exists>up r kern' evs. uwq_at kern j = Some up \<and>
             tryworker cfg en kern up = (r, kern', evs) \<and>
             uwq_trywork_loop cfg en kern g (rdtsc en) 0 [] =
               (r, kern', [] @ pre @ Call_tryworker j g # evs)))"
    by blast
  then show ?thesis
    unfolding uwq_trywork_def probe_order_def
    by (intro exI [of _ pre]) (auto split: option.splits)
qed

text \<open>
  C10. \<^verbatim>\<open>uwq_trywork\<close> never examines the calling CPU, and it calls \<^verbatim>\<open>tryworker\<close> at most
  once: on the first CPU in its probe order that is not the caller's and whose current
  process has a work queue reporting work. The result of that call is the result of
  \<^verbatim>\<open>uwq_trywork\<close>, and nothing is examined after it; in particular, when the call
  returns \<^verbatim>\<open>false\<close>, \<^verbatim>\<open>uwq_trywork\<close> returns \<^verbatim>\<open>false\<close> and the remaining CPUs are not
  probed. When no such CPU exists, \<^verbatim>\<open>tryworker\<close> is not called and the result is
  \<^verbatim>\<open>false\<close>.
\<close>

theorem uwq_trywork_one_victim:
  assumes "uwq_trywork cfg en kern g = (res, kern', tr)"
  shows "mycpuid en \<notin> set (examined tr) \<and> length (tryworker_calls tr) \<le> 1 \<and>
    (case find (victim cfg en kern) (probe_order cfg (rdtsc en)) of
       None \<Rightarrow> tryworker_calls tr = [] \<and> res = Returns False \<and> kern' = kern
     | Some j \<Rightarrow> j \<noteq> mycpuid en \<and> tryworker_calls tr = [j] \<and>
         (\<exists>up pre evs. uwq_at kern j = Some up \<and>
             tryworker cfg en kern up = (res, kern', evs) \<and>
             tr = pre @ Call_tryworker j g # evs \<and> tryworker_calls pre = [] \<and>
             examined evs = [] \<and>
             (res = Returns False \<longrightarrow> evs = [] \<and> kern' = kern)))"
proof -
  from uwq_trywork_spec [of en g cfg kern] obtain pre where
    pre: "tryworker_calls pre = []" "mycpuid en \<notin> set (examined pre)" and
    c: "(case find (victim cfg en kern) (probe_order cfg (rdtsc en)) of
        None \<Rightarrow> uwq_trywork cfg en kern g = (Returns False, kern, pre)
      | Some j \<Rightarrow>
          (\<exists>up r kern' evs. uwq_at kern j = Some up \<and>
             tryworker cfg en kern up = (r, kern', evs) \<and>
             uwq_trywork cfg en kern g = (r, kern', pre @ Call_tryworker j g # evs)))"
    by blast
  show ?thesis
  proof (cases "find (victim cfg en kern) (probe_order cfg (rdtsc en))")
    case None
    with c assms pre show ?thesis by simp
  next
    case (Some j)
    with c assms obtain up evs where
      u: "uwq_at kern j = Some up" "tryworker cfg en kern up = (res, kern', evs)"
        "tr = pre @ Call_tryworker j g # evs"
      by auto
    from tryworker_events [OF u(2)] have e: "tryworker_calls evs = []" "examined evs = []"
      by simp_all
    have f: "res = Returns False \<longrightarrow> evs = [] \<and> kern' = kern"
      using tryworker_False u(2) by blast
    from find_victim_other [OF Some] have j: "j \<noteq> mycpuid en" .
    from u pre e f j Some show ?thesis
      by (auto simp: tryworker_calls_append examined_append)
  qed
qed

text \<open>
  \<^verbatim>\<open>uwq_trywork\<close> enters no epoch guard: whatever it reads or calls, the number of
  guards live on the calling thread is the number \<open>g\<close> it was entered with.
\<close>

lemma uwq_trywork_guards:
  assumes "uwq_trywork cfg en kern g = (res, kern', tr)"
  shows "set (guard_counts tr) \<subseteq> {g}"
proof -
  from uwq_trywork_spec [of en g cfg kern] obtain pre where
    pre: "set (guard_counts pre) \<subseteq> {g}" and
    c: "(case find (victim cfg en kern) (probe_order cfg (rdtsc en)) of
        None \<Rightarrow> uwq_trywork cfg en kern g = (Returns False, kern, pre)
      | Some j \<Rightarrow>
          (\<exists>up r kern' evs. uwq_at kern j = Some up \<and>
             tryworker cfg en kern up = (r, kern', evs) \<and>
             uwq_trywork cfg en kern g = (r, kern', pre @ Call_tryworker j g # evs)))"
    by blast
  show ?thesis
  proof (cases "find (victim cfg en kern) (probe_order cfg (rdtsc en))")
    case None
    with c assms pre show ?thesis by simp
  next
    case (Some j)
    with c assms obtain up evs where
      u: "tryworker cfg en kern up = (res, kern', evs)" "tr = pre @ Call_tryworker j g # evs"
      by auto
    from tryworker_events [OF u(1)] have "guard_counts evs = []" by simp
    with u(2) pre show ?thesis by (simp add: guard_counts_append)
  qed
qed


theorem tryworker_strictly_boolean_witness:
  "tryworker_body example_config example_env_noproc example_kernel 3 =
     (Returns Nullptr, example_kernel, []) \<and>
   tryworker example_config example_env_noproc example_kernel 3 =
     (Returns False, example_kernel, []) \<and>
   bool_of_operand Nullptr = wakes_or_enqueues [] \<and>
   fst (tryworker_body example_config example_env example_kernel 3) = Returns (Literal True) \<and>
   snd (snd (tryworker_body example_config example_env example_kernel 3)) = [Addrun 9] \<and>
   bool_of_operand (Literal True) = wakes_or_enqueues [Addrun 9]"
proof -
  let ?X = "tryworker_body example_config example_env_noproc example_kernel 3"
  let ?Y = "tryworker_body example_config example_env example_kernel 3"
  have a: "fst ?X = Returns Nullptr" by code_simp
  have b: "?X = (Returns Nullptr, fst (snd ?X), snd (snd ?X))"
    using a by (metis prod.collapse)
  have c: "\<not> bool_of_operand Nullptr" by (simp add: bool_of_operand_def)
  have d: "fst ?Y = Returns (Literal True)" by code_simp
  have e: "snd (snd ?Y) = [Addrun 9]" by code_simp
  have f: "?Y = (Returns (Literal True), fst (snd ?Y), [Addrun 9])"
    using d e by (metis prod.collapse)
  from tryworker_strictly_boolean [OF b] tryworker_strictly_boolean [OF f] b c d e
  show ?thesis by simp
qed

theorem uwq_trywork_one_victim_witness:
  "find (victim example_config example_env example_kernel_invalid)
     (probe_order example_config (rdtsc example_env)) = Some 1 \<and>
   uwq_trywork example_config example_env example_kernel_invalid 0 =
     (Returns False, example_kernel_invalid, [Read_proc 1 0, Call_haswork 1 0, Call_tryworker 1 0]) \<and>
   mycpuid example_env \<notin> set (examined [Read_proc 1 0, Call_haswork 1 0, Call_tryworker 1 0]) \<and>
   tryworker_calls [Read_proc 1 0, Call_haswork 1 0, Call_tryworker 1 0] = [1] \<and>
   uwq_at example_kernel_invalid 2 = Some 4 \<and>
   haswork example_config (uwqs example_kernel_invalid 4)"
proof -
  let ?X = "uwq_trywork example_config example_env example_kernel_invalid 0"
  have f: "find (victim example_config example_env example_kernel_invalid)
     (probe_order example_config (rdtsc example_env)) = Some 1" by code_simp
  have a: "fst ?X = Returns False" by code_simp
  have t: "snd (snd ?X) = [Read_proc 1 0, Call_haswork 1 0, Call_tryworker 1 0]" by code_simp
  have b: "?X = (Returns False, fst (snd ?X), [Read_proc 1 0, Call_haswork 1 0, Call_tryworker 1 0])"
    using a t by (metis prod.collapse)
  have u: "uwq_at example_kernel_invalid 2 = Some 4" by code_simp
  have h: "haswork example_config (uwqs example_kernel_invalid 4)" by code_simp
  have m: "mycpuid example_env = 0" by (simp add: example_env_def)
  from uwq_trywork_one_victim [OF b] have "fst (snd ?X) = example_kernel_invalid"
    unfolding f by auto
  with b f u h m show ?thesis by simp
qed

text \<open>
  C1. Between reading the victim CPU's \<^verbatim>\<open>proc\<close> pointer and the end of the calls to
  \<^verbatim>\<open>haswork\<close> and \<^verbatim>\<open>tryworker\<close>, a \<^verbatim>\<open>scoped_gc_epoch\<close> guard should be live on the
  calling thread. In the code the statement meant to create it,
  \<^verbatim>\<open>scoped_gc_epoch xgc();\<close>, declares a function and creates no guard. Entered with
  no guard live in the concrete kernel state, \<^verbatim>\<open>uwq_trywork\<close> reads the \<^verbatim>\<open>proc\<close> pointer
  of CPU 1 and calls \<^verbatim>\<open>haswork\<close> and \<^verbatim>\<open>tryworker\<close> on its work queue with 0 guards
  live.
\<close>

theorem uwq_trywork_no_guard_live:
  "fst (uwq_trywork example_config example_env example_kernel 0) = Returns True \<and>
   snd (snd (uwq_trywork example_config example_env example_kernel 0)) =
     [Read_proc 1 0, Call_haswork 1 0, Call_tryworker 1 0, Addrun 9] \<and>
   guard_counts (snd (snd (uwq_trywork example_config example_env example_kernel 0))) = [0, 0, 0]"
  by code_simp

end
